theory Spec2Isabelle
  imports Main "HOL-Library.Word" "HOL-Library.Numeral_Type"
begin

unbundle bit_operations_syntax

section \<open>A signature-based zero-knowledge range proof (ccs08.go)\<close>

text \<open>
  The development follows \<^verbatim>\<open>go-ethereum/zkrangeproof/ccs08.go\<close>. Arbitrary-precision
  integers (\<^verbatim>\<open>*big.Int\<close>) are \<^typ>\<open>int\<close>. The \<^verbatim>\<open>int64\<close> parameters \<^verbatim>\<open>u\<close>, \<^verbatim>\<open>l\<close>
  and the loop counters are \<^typ>\<open>int\<close> as well: the only arithmetic the code does on
  them is \<^verbatim>\<open>i = i + 1\<close> under the guard \<^verbatim>\<open>i < l\<close>, which cannot overflow, and every
  other use converts them to \<^verbatim>\<open>*big.Int\<close> first.
\<close>

subsection \<open>Run-time failures\<close>

text \<open>
  No function of the file ever returns a non-nil \<^verbatim>\<open>error\<close>; the only way a call fails
  is a run-time panic. Each panic the code can raise is a constructor.
\<close>

datatype error =
    MakesliceLenOutOfRange  \<comment> \<open>\<^verbatim>\<open>make([]T, l, l)\<close> with \<^verbatim>\<open>l < 0\<close>\<close>
  | DivisionByZero          \<comment> \<open>\<^verbatim>\<open>big.Int.Mod\<close> or \<^verbatim>\<open>big.Int.Div\<close> by zero\<close>
  | NilDereference          \<comment> \<open>a method of a nil pointer reads its fields\<close>
  | IndexOutOfRange         \<comment> \<open>slice index beyond the length\<close>

subsection \<open>math/big: Euclidean division\<close>

text \<open>
  \<^verbatim>\<open>big.Int.Mod\<close> and \<^verbatim>\<open>big.Int.Div\<close> implement Euclidean division: the remainder is
  in \<open>[0, \<bar>y\<bar>)\<close> whatever the signs. Both panic for \<open>y = 0\<close>; the callers below test
  that before they use these two.
\<close>

definition big_Mod :: "int \<Rightarrow> int \<Rightarrow> int" where
  "big_Mod x y = x mod \<bar>y\<bar>"

definition big_Div :: "int \<Rightarrow> int \<Rightarrow> int" where
  "big_Div x y = sgn y * (x div \<bar>y\<bar>)"

subsection \<open>Decompose\<close>

text \<open>
  \<^verbatim>\<open>
  func Decompose(x *big.Int, u int64, l int64) ([]int64, error) {
      result = make([]int64, l, l)
      i = 0
      for i<l {
          result[i] = Mod(x, new(big.Int).SetInt64(u)).Int64()
          x = new(big.Int).Div(x, new(big.Int).SetInt64(u))
          i = i + 1
      }
      return result, nil
  }
  \<close>
  The loop state is \<open>(result, x, i)\<close>. The remainder is below \<open>\<bar>u\<bar> \<le> 2^63\<close>, so
  \<^verbatim>\<open>Int64()\<close> returns it unchanged.
\<close>

function Decompose_loop :: "int \<Rightarrow> int \<Rightarrow> int list \<Rightarrow> int \<Rightarrow> int \<Rightarrow> error + int list" where
  "Decompose_loop u l result x i =
     (if i < l then
        (if u = 0 then Inl DivisionByZero
         else Decompose_loop u l (result[nat i := big_Mod x u]) (big_Div x u) (i + 1))
      else Inr result)"
  by pat_completeness auto
termination
  by (relation "measure (\<lambda>(u, l, result, x, i). nat (l - i))") auto

declare Decompose_loop.simps [simp del]

definition Decompose :: "int \<Rightarrow> int \<Rightarrow> int \<Rightarrow> error + int list" where
  "Decompose x u l =
     (if l < 0 then Inl MakesliceLenOutOfRange
      else Decompose_loop u l (replicate (nat l) 0) x 0)"

text \<open>The value of a digit sequence, least-significant digit first.\<close>

definition positional_sum :: "int \<Rightarrow> int list \<Rightarrow> int" where
  "positional_sum u ds = (\<Sum>i<length ds. ds ! i * u ^ i)"

text \<open>The digits the loop writes, as a structural recursion on the number of rounds left.\<close>

fun digits :: "int \<Rightarrow> int \<Rightarrow> nat \<Rightarrow> int list" where
  "digits x u 0 = []"
| "digits x u (Suc n) = big_Mod x u # digits (big_Div x u) u n"

subsection \<open>Counted loops\<close>

text \<open>
  Every other loop of the file has the shape \<^verbatim>\<open>for i = 0; i < l; i++ { body }\<close>. The
  body reads the counter, updates the variables of the loop and may panic, which ends
  the whole call.
\<close>

function for_loop :: "int \<Rightarrow> int \<Rightarrow> (int \<Rightarrow> 'st \<Rightarrow> error + 'st) \<Rightarrow> 'st \<Rightarrow> error + 'st" where
  "for_loop i n body st =
     (if i < n then
        (case body i st of Inl e \<Rightarrow> Inl e | Inr st' \<Rightarrow> for_loop (i + 1) n body st')
      else Inr st)"
  by pat_completeness auto
termination
  by (relation "measure (\<lambda>(i, n, body, st). nat (n - i))") auto

declare for_loop.simps [simp del]

subsection \<open>strconv.FormatInt(i, 10)\<close>

definition digit_char :: "nat \<Rightarrow> char" where
  "digit_char n = ''0123456789'' ! n"

function dec_string :: "nat \<Rightarrow> string" where
  "dec_string n =
     (if n < 10 then [digit_char n] else dec_string (n div 10) @ [digit_char (n mod 10)])"
  by pat_completeness auto
termination
  by (relation "measure id") auto

declare dec_string.simps [simp del]

definition FormatInt :: "int \<Rightarrow> string" where
  "FormatInt i = (if i < 0 then CHR ''-'' # dec_string (nat (- i)) else dec_string (nat i))"

subsection \<open>crypto/sha256\<close>

text \<open>
  SHA-256 as in FIPS 180-4. A 32-bit word is a natural number below \<open>2^32\<close>, with the
  wrap-around of the additions written out. The round constants \<open>K256\<close> and the initial
  hash value \<open>H256\<close> are those of the standard, in decimal.
\<close>

type_synonym byte = "8 word"

definition add32 :: "nat \<Rightarrow> nat \<Rightarrow> nat" where
  "add32 x y = (x + y) mod 4294967296"

definition rotr :: "nat \<Rightarrow> nat \<Rightarrow> nat" where
  "rotr n x = x div 2 ^ n + (x mod 2 ^ n) * 2 ^ (32 - n)"

definition shr :: "nat \<Rightarrow> nat \<Rightarrow> nat" where
  "shr n x = x div 2 ^ n"

definition not32 :: "nat \<Rightarrow> nat" where
  "not32 x = 4294967295 - x"

definition Ch :: "nat \<Rightarrow> nat \<Rightarrow> nat \<Rightarrow> nat" where
  "Ch x y z = (x AND y) XOR (not32 x AND z)"

definition Maj :: "nat \<Rightarrow> nat \<Rightarrow> nat \<Rightarrow> nat" where
  "Maj x y z = (x AND y) XOR (x AND z) XOR (y AND z)"

definition bsig0 :: "nat \<Rightarrow> nat" where
  "bsig0 x = rotr 2 x XOR rotr 13 x XOR rotr 22 x"

definition bsig1 :: "nat \<Rightarrow> nat" where
  "bsig1 x = rotr 6 x XOR rotr 11 x XOR rotr 25 x"

definition ssig0 :: "nat \<Rightarrow> nat" where
  "ssig0 x = rotr 7 x XOR rotr 18 x XOR shr 3 x"

definition ssig1 :: "nat \<Rightarrow> nat" where
  "ssig1 x = rotr 17 x XOR rotr 19 x XOR shr 10 x"

definition K256 :: "nat list" where
  "K256 =
    [1116352408, 1899447441, 3049323471, 3921009573, 961987163, 1508970993,
     2453635748, 2870763221, 3624381080, 310598401, 607225278, 1426881987,
     1925078388, 2162078206, 2614888103, 3248222580, 3835390401, 4022224774,
     264347078, 604807628, 770255983, 1249150122, 1555081692, 1996064986,
     2554220882, 2821834349, 2952996808, 3210313671, 3336571891, 3584528711,
     113926993, 338241895, 666307205, 773529912, 1294757372, 1396182291,
     1695183700, 1986661051, 2177026350, 2456956037, 2730485921, 2820302411,
     3259730800, 3345764771, 3516065817, 3600352804, 4094571909, 275423344,
     430227734, 506948616, 659060556, 883997877, 958139571, 1322822218,
     1537002063, 1747873779, 1955562222, 2024104815, 2227730452, 2361852424,
     2428436474, 2756734187, 3204031479, 3329325298]"

definition H256 :: "nat list" where
  "H256 = [1779033703, 3144134277, 1013904242, 2773480762,
           1359893119, 2600822924, 528734635, 1541459225]"

text \<open>One round: the eight working variables, the round constant and the schedule word.\<close>

fun step256 :: "nat list \<Rightarrow> nat \<Rightarrow> nat \<Rightarrow> nat list" where
  "step256 [a, b, c, d, e, f, g, h] k w =
     [add32 (add32 (add32 (add32 (add32 h (bsig1 e)) (Ch e f g)) k) w)
            (add32 (bsig0 a) (Maj a b c)),
      a, b, c,
      add32 d (add32 (add32 (add32 (add32 h (bsig1 e)) (Ch e f g)) k) w),
      e, f, g]"
| "step256 s k w = s"

text \<open>
  The 64 rounds of one block. \<open>w\<close> is the window of the last 16 schedule words,
  oldest first; its head is the word of the current round.
\<close>

fun rounds256 :: "nat list \<Rightarrow> nat list \<Rightarrow> nat list \<Rightarrow> nat list" where
  "rounds256 [] w s = s"
| "rounds256 (k # ks) w s =
     rounds256 ks
       (tl w @ [add32 (add32 (add32 (ssig1 (w ! 14)) (w ! 9)) (ssig0 (w ! 1))) (w ! 0)])
       (step256 s k (hd w))"

fun be32 :: "byte list \<Rightarrow> nat list" where
  "be32 (b0 # b1 # b2 # b3 # bs) =
     (((unat b0 * 256 + unat b1) * 256 + unat b2) * 256 + unat b3) # be32 bs"
| "be32 bs = []"

fun blocks256 :: "nat list \<Rightarrow> nat list \<Rightarrow> nat list" where
  "blocks256 hs (w0 # w1 # w2 # w3 # w4 # w5 # w6 # w7 # w8 # w9 # w10 # w11 # w12 # w13
                 # w14 # w15 # ws) =
     blocks256
       (map2 add32 hs
          (rounds256 K256
             [w0, w1, w2, w3, w4, w5, w6, w7, w8, w9, w10, w11, w12, w13, w14, w15] hs))
       ws"
| "blocks256 hs ws = hs"

definition be64 :: "nat \<Rightarrow> byte list" where
  "be64 n = map (\<lambda>k. of_nat (n div 256 ^ k)) [7, 6, 5, 4, 3, 2, 1, 0]"

definition pad256 :: "byte list \<Rightarrow> byte list" where
  "pad256 bs =
     bs @ [0x80] @ replicate ((119 - length bs mod 64) mod 64) 0 @ be64 (8 * length bs)"

definition word_bytes :: "nat \<Rightarrow> byte list" where
  "word_bytes w = map (\<lambda>k. of_nat (w div 256 ^ k)) [3, 2, 1, 0]"

definition sha256 :: "byte list \<Rightarrow> byte list" where
  "sha256 bs = concat (map word_bytes (blocks256 H256 (be32 (pad256 bs))))"

text \<open>\<^verbatim>\<open>[]byte(s)\<close> for a Go string \<open>s\<close>.\<close>

definition str_bytes :: "string \<Rightarrow> byte list" where
  "str_bytes cs = map of_char cs"

subsection \<open>crypto/rand\<close>

text \<open>
  \<^verbatim>\<open>rand.Int(rand.Reader, bn256.Order)\<close> reads the next scalar from the random source.
  The source is the list of the scalars it will deliver. The code drops the error of
  \<^verbatim>\<open>rand.Int\<close>; when the source fails the result is a nil \<^verbatim>\<open>*big.Int\<close>, and the
  first use of it panics.
\<close>

definition rand_Int :: "int list \<Rightarrow> (int \<times> int list) option" where
  "rand_Int src = (case src of [] \<Rightarrow> None | k # rest \<Rightarrow> Some (k, rest))"

subsection \<open>The collaborators of the package\<close>

text \<open>
  Modelled from the spec: the pairing library \<^verbatim>\<open>crypto/bn256\<close>, the signing primitive
  \<^verbatim>\<open>sign\<close> and \<^verbatim>\<open>byteconversion.FromByteArray\<close> belong to the repository but are
  not among the sources at hand. Section 6 of the specification describes them by
  their interface only (three groups of known prime order with fixed generators, scalar
  exponentiation, group addition, a bilinear pairing map, canonical serialization;
  \<^verbatim>\<open>sign(value, privateKey)\<close>; a digest read as an integer), so they are parameters:
  one field for each method the file calls. The groups are written additively, as the
  library does. \<open>sign\<close> yields \<open>None\<close> for the nil pointer it returns on failure.
\<close>

record ('g1, 'g2, 'gt) library =
  Order :: int
  G1_ScalarBaseMult :: "int \<Rightarrow> 'g1"
  G2_ScalarBaseMult :: "int \<Rightarrow> 'g2"
  G2_ScalarMult :: "'g2 \<Rightarrow> int \<Rightarrow> 'g2"
  G2_Add :: "'g2 \<Rightarrow> 'g2 \<Rightarrow> 'g2"
  G2_SetInfinity :: "'g2"
  G2_Marshal :: "'g2 \<Rightarrow> byte list"
  G2_String :: "'g2 \<Rightarrow> string"
  bn256_Pair :: "'g1 \<Rightarrow> 'g2 \<Rightarrow> 'gt"
  GT_ScalarMult :: "'gt \<Rightarrow> int \<Rightarrow> 'gt"
  GT_Add :: "'gt \<Rightarrow> 'gt \<Rightarrow> 'gt"
  GT_Invert :: "'gt \<Rightarrow> 'gt"
  GT_Marshal :: "'gt \<Rightarrow> byte list"
  GT_String :: "'gt \<Rightarrow> string"
  sign :: "int \<Rightarrow> int \<Rightarrow> 'g2 option"
  FromByteArray :: "byte list \<Rightarrow> int"

text \<open>
  Modelled from the spec: the helpers \<^verbatim>\<open>Mod\<close>, \<^verbatim>\<open>Sub\<close>, \<^verbatim>\<open>Multiply\<close> and
  \<^verbatim>\<open>GetBigInt\<close> of the package are not among the sources either. Section 6 names them
  as arbitrary-precision subtraction, multiplication and reduction modulo the group
  order; \<^verbatim>\<open>GetBigInt\<close> reads a decimal literal.
\<close>

definition Mod :: "int \<Rightarrow> int \<Rightarrow> int" where
  "Mod x y = big_Mod x y"

definition Sub :: "int \<Rightarrow> int \<Rightarrow> int" where
  "Sub x y = x - y"

definition Multiply :: "int \<Rightarrow> int \<Rightarrow> int" where
  "Multiply x y = x * y"

text \<open>The literal that Setup passes to \<^verbatim>\<open>GetBigInt\<close>.\<close>

definition h_scalar :: int where
  "h_scalar = 18560948149108576432482904553159745978835170526553990798435819795989606410925"

subsection \<open>The constants G1, G2 and E\<close>

definition G1 :: "('g1, 'g2, 'gt) library \<Rightarrow> 'g1" where
  "G1 B = G1_ScalarBaseMult B 1"

definition G2 :: "('g1, 'g2, 'gt) library \<Rightarrow> 'g2" where
  "G2 B = G2_ScalarBaseMult B 1"

definition E :: "('g1, 'g2, 'gt) library \<Rightarrow> 'gt" where
  "E B = bn256_Pair B (G1 B) (G2 B)"

subsection \<open>params and proof\<close>

text \<open>
  The struct \<^verbatim>\<open>keypair\<close> is declared beside \<^verbatim>\<open>keygen\<close>; the file reads its field
  \<^verbatim>\<open>privk\<close>, and the callers of Verify pass its field \<^verbatim>\<open>pubk\<close>. The struct
  \<^verbatim>\<open>proof\<close> is the record \<open>zkproof\<close> here.
\<close>

record 'g1 keypair =
  pubk :: 'g1
  privk :: int

text \<open>
  A Go map lookup of a missing key yields the nil pointer, as does a key that was stored
  with a nil signature: \<open>signatures p k = None\<close> stands for both.
\<close>

record ('g1, 'g2) params =
  signatures :: "string \<Rightarrow> 'g2 option"
  H :: 'g2
  kp :: "'g1 keypair"
  u :: int
  l :: int

record ('g2, 'gt) zkproof =
  V :: "'g2 list"
  D :: 'g2
  C :: 'g2
  a :: "'gt list"
  s :: "int list"
  t :: "int list"
  zsig :: "int list"
  zv :: "int list"
  c :: int
  m :: int
  zr :: int

subsection \<open>Commit\<close>

text \<open>
  \<^verbatim>\<open>
  C = new(bn256.G2).ScalarBaseMult(x)
  C.Add(C, new(bn256.G2).ScalarMult(p.H, r))
  return C, nil
  \<close>
\<close>

definition Commit ::
  "('g1, 'g2, 'gt) library \<Rightarrow> int \<Rightarrow> int \<Rightarrow> ('g1, 'g2) params \<Rightarrow> 'g2" where
  "Commit B x r p = G2_Add B (G2_ScalarBaseMult B x) (G2_ScalarMult B (H p) r)"

subsection \<open>Hash\<close>

text \<open>
  \<^verbatim>\<open>
  digest := sha256.New()
  for i := range a { digest.Write([]byte(a[i].String())) }
  digest.Write([]byte(D.String()))
  output := digest.Sum(nil)
  tmp := output[0: len(output)]
  return byteconversion.FromByteArray(tmp)
  \<close>
\<close>

definition Hash :: "('g1, 'g2, 'gt) library \<Rightarrow> 'gt list \<Rightarrow> 'g2 \<Rightarrow> int" where
  "Hash B gts d =
     FromByteArray B
       (sha256 (concat (map (\<lambda>g. str_bytes (GT_String B g)) gts) @ str_bytes (G2_String B d)))"

subsection \<open>Setup\<close>

text \<open>
  \<^verbatim>\<open>
  p.kp, _ = keygen()
  p.signatures = make(map[string]*bn256.G2)
  i = 0
  for i < u {
      sig_i, _ := sign(new(big.Int).SetInt64(i), p.kp.privk)
      p.signatures[strconv.FormatInt(i, 10)] = sig_i
      i = i + 1
  }
  h := GetBigInt("18560948149108576432482904553159745978835170526553990798435819795989606410925")
  p.H = new(bn256.G2).ScalarBaseMult(h)
  p.u = u
  p.l = l
  return p, nil
  \<close>
  \<^verbatim>\<open>keygen\<close> is not among the sources; the key pair it returns is an argument.
\<close>

definition Setup_body ::
  "('g1, 'g2, 'gt) library \<Rightarrow> int \<Rightarrow> int \<Rightarrow> (string \<Rightarrow> 'g2 option)
     \<Rightarrow> error + (string \<Rightarrow> 'g2 option)" where
  "Setup_body B sk i sigs = Inr (sigs (FormatInt i := sign B i sk))"

definition Setup ::
  "('g1, 'g2, 'gt) library \<Rightarrow> 'g1 keypair \<Rightarrow> int \<Rightarrow> int \<Rightarrow> error + ('g1, 'g2) params" where
  "Setup B keys U L =
     (case for_loop 0 U (Setup_body B (privk keys)) (\<lambda>k. None) of
        Inl e \<Rightarrow> Inl e
      | Inr sigs \<Rightarrow>
          Inr \<lparr>signatures = sigs, H = G2_ScalarBaseMult B h_scalar, kp = keys, u = U, l = L\<rparr>)"

subsection \<open>Prove\<close>

text \<open>
  The variables of the first loop of Prove: the random source, the local slice \<^verbatim>\<open>v\<close>,
  the local \<^verbatim>\<open>D\<close>, and the slices \<^verbatim>\<open>V\<close>, \<^verbatim>\<open>s\<close>, \<^verbatim>\<open>t\<close>, \<^verbatim>\<open>a\<close> of
  \<^verbatim>\<open>proof_out\<close>. The code allocates the slices with \<open>l\<close> nil entries and round \<open>i\<close>
  writes entry \<open>i\<close>; here a slice holds the entries written so far.
\<close>

record ('g2, 'gt) prove_vars =
  loc_rand :: "int list"
  loc_v :: "int list"
  loc_D :: 'g2
  loc_V :: "'g2 list"
  loc_s :: "int list"
  loc_t :: "int list"
  loc_a :: "'gt list"

text \<open>
  \<^verbatim>\<open>
  v[i], _ = rand.Int(rand.Reader, bn256.Order)
  A = p.signatures[strconv.FormatInt(decx[i], 10)]
  proof_out.V[i] = new(bn256.G2).ScalarMult(A, v[i])
  proof_out.s[i], _ = rand.Int(rand.Reader, bn256.Order)
  proof_out.t[i], _ = rand.Int(rand.Reader, bn256.Order)
  proof_out.a[i] = bn256.Pair(G1, proof_out.V[i])
  proof_out.a[i].ScalarMult(proof_out.a[i], proof_out.s[i])
  proof_out.a[i].Invert(proof_out.a[i])
  proof_out.a[i].Add(proof_out.a[i], new(bn256.GT).ScalarMult(E, proof_out.t[i]))
  ui := new(big.Int).Exp(new(big.Int).SetInt64(p.u), new(big.Int).SetInt64(i), nil)
  muisi := new(big.Int).Mul(proof_out.s[i], ui)
  muisi = Mod(muisi, bn256.Order)
  aux := new(bn256.G2).ScalarBaseMult(muisi)
  D.Add(D, aux)
  \<close>
  A nil \<open>A\<close> or a nil scalar makes the method that receives it panic.
\<close>

definition Prove_body1 ::
  "('g1, 'g2, 'gt) library \<Rightarrow> ('g1, 'g2) params \<Rightarrow> int list \<Rightarrow> int
     \<Rightarrow> ('g2, 'gt) prove_vars \<Rightarrow> error + ('g2, 'gt) prove_vars" where
  "Prove_body1 B p decx i st =
     (case rand_Int (loc_rand st) of
        None \<Rightarrow> Inl NilDereference
      | Some (vi, src1) \<Rightarrow>
          if \<not> nat i < length decx then Inl IndexOutOfRange
          else
            (case signatures p (FormatInt (decx ! nat i)) of
               None \<Rightarrow> Inl NilDereference
             | Some A \<Rightarrow>
                 (case rand_Int src1 of
                    None \<Rightarrow> Inl NilDereference
                  | Some (si, src2) \<Rightarrow>
                      (case rand_Int src2 of
                         None \<Rightarrow> Inl NilDereference
                       | Some (ti, src3) \<Rightarrow>
                           (let Vi = G2_ScalarMult B A vi;
                                ai = GT_Add B
                                       (GT_Invert B
                                          (GT_ScalarMult B (bn256_Pair B (G1 B) Vi) si))
                                       (GT_ScalarMult B (E B) ti);
                                ui = u p ^ nat i;
                                muisi = Mod (Multiply si ui) (Order B);
                                aux = G2_ScalarBaseMult B muisi
                            in Inr \<lparr>loc_rand = src3,
                                    loc_v = loc_v st @ [vi],
                                    loc_D = G2_Add B (loc_D st) aux,
                                    loc_V = loc_V st @ [Vi],
                                    loc_s = loc_s st @ [si],
                                    loc_t = loc_t st @ [ti],
                                    loc_a = loc_a st @ [ai]\<rparr>)))))"

text \<open>
  \<^verbatim>\<open>
  proof_out.zsig[i] = Sub(proof_out.s[i], Multiply(new(big.Int).SetInt64(decx[i]), proof_out.c))
  proof_out.zsig[i] = Mod(proof_out.zsig[i], bn256.Order)
  proof_out.zv[i] = Sub(proof_out.t[i], Multiply(v[i], proof_out.c))
  proof_out.zv[i] = Mod(proof_out.zv[i], bn256.Order)
  \<close>
  The variables of the second loop are the slices \<^verbatim>\<open>zsig\<close> and \<^verbatim>\<open>zv\<close>.
\<close>

definition Prove_body2 ::
  "('g1, 'g2, 'gt) library \<Rightarrow> int list \<Rightarrow> ('g2, 'gt) prove_vars \<Rightarrow> int \<Rightarrow> int
     \<Rightarrow> int list \<times> int list \<Rightarrow> error + int list \<times> int list" where
  "Prove_body2 B decx st ch i zs =
     (if nat i < length decx \<and> nat i < length (loc_s st) \<and> nat i < length (loc_t st)
         \<and> nat i < length (loc_v st)
      then Inr (fst zs @ [Mod (Sub (loc_s st ! nat i) (Multiply (decx ! nat i) ch)) (Order B)],
                snd zs @ [Mod (Sub (loc_t st ! nat i) (Multiply (loc_v st ! nat i) ch)) (Order B)])
      else Inl IndexOutOfRange)"

text \<open>
  \<^verbatim>\<open>
  decx, _ := Decompose(x, p.u, p.l)
  ...
  proof_out.D = new(bn256.G2)
  proof_out.D.SetInfinity()
  proof_out.m, _ = rand.Int(rand.Reader, bn256.Order)
  D := new(bn256.G2).ScalarMult(p.H, proof_out.m)
  for i = 0; i< p.l; i++ { ... }
  proof_out.D.Add(proof_out.D, D)
  proof_out.C, _ = Commit(x, r, p)
  proof_out.c, _ = Hash(proof_out.a, proof_out.D)
  proof_out.c = Mod(proof_out.c, bn256.Order)
  proof_out.zr = Sub(proof_out.m, Multiply(r, proof_out.c))
  proof_out.zr = Mod(proof_out.zr, bn256.Order)
  for i = 0; i< p.l; i++ { ... }
  return proof_out, nil
  \<close>
  The first argument after the library is the random source.
\<close>

definition Prove ::
  "('g1, 'g2, 'gt) library \<Rightarrow> int list \<Rightarrow> int \<Rightarrow> int \<Rightarrow> ('g1, 'g2) params
     \<Rightarrow> error + ('g2, 'gt) zkproof" where
  "Prove B src x r p =
     (case Decompose x (u p) (l p) of
        Inl e \<Rightarrow> Inl e
      | Inr decx \<Rightarrow>
          (case rand_Int src of
             None \<Rightarrow> Inl NilDereference
           | Some (m0, src0) \<Rightarrow>
               (case for_loop 0 (l p) (Prove_body1 B p decx)
                       \<lparr>loc_rand = src0, loc_v = [],
                        loc_D = G2_ScalarMult B (H p) m0,
                        loc_V = [], loc_s = [], loc_t = [], loc_a = []\<rparr> of
                  Inl e \<Rightarrow> Inl e
                | Inr st \<Rightarrow>
                    (let D_out = G2_Add B (G2_SetInfinity B) (loc_D st);
                         C_out = Commit B x r p;
                         ch = Mod (Hash B (loc_a st) D_out) (Order B);
                         zr_out = Mod (Sub m0 (Multiply r ch)) (Order B)
                     in case for_loop 0 (l p) (Prove_body2 B decx st ch) ([], []) of
                          Inl e \<Rightarrow> Inl e
                        | Inr zs \<Rightarrow>
                            Inr \<lparr>V = loc_V st, D = D_out, C = C_out, a = loc_a st,
                                 s = loc_s st, t = loc_t st, zsig = fst zs, zv = snd zs,
                                 c = ch, m = m0, zr = zr_out\<rparr>))))"

subsection \<open>Verify\<close>

text \<open>
  \<^verbatim>\<open>
  ui := new(big.Int).Exp(new(big.Int).SetInt64(p.u), new(big.Int).SetInt64(i), nil)
  muizsigi := new(big.Int).Mul(proof_out.zsig[i], ui)
  muizsigi = Mod(muizsigi, bn256.Order)
  aux := new(bn256.G2).ScalarBaseMult(muizsigi)
  D.Add(D, aux)
  \<close>
\<close>

definition Verify_body1 ::
  "('g1, 'g2, 'gt) library \<Rightarrow> ('g2, 'gt) zkproof \<Rightarrow> ('g1, 'g2) params \<Rightarrow> int \<Rightarrow> 'g2
     \<Rightarrow> error + 'g2" where
  "Verify_body1 B pr p i acc =
     (if nat i < length (zsig pr)
      then Inr (G2_Add B acc
                  (G2_ScalarBaseMult B
                     (Mod (Multiply (zsig pr ! nat i) (u p ^ nat i)) (Order B))))
      else Inl IndexOutOfRange)"

text \<open>
  \<^verbatim>\<open>
  p1 = bn256.Pair(pubk, proof_out.V[i])
  p1.ScalarMult(p1, proof_out.c)
  p2 = bn256.Pair(G1, proof_out.V[i])
  p2.ScalarMult(p2, proof_out.zsig[i])
  p2.Invert(p2)
  p1.Add(p1, p2)
  p1.Add(p1, new(bn256.GT).ScalarMult(E, proof_out.zv[i]))
  pBytes := p1.Marshal()
  aBytes := proof_out.a[i].Marshal()
  r2 = r2 && bytes.Equal(pBytes, aBytes)
  \<close>
\<close>

definition Verify_body2 ::
  "('g1, 'g2, 'gt) library \<Rightarrow> ('g2, 'gt) zkproof \<Rightarrow> 'g1 \<Rightarrow> int \<Rightarrow> bool \<Rightarrow> error + bool" where
  "Verify_body2 B pr pk i r2 =
     (if nat i < length (V pr) \<and> nat i < length (zsig pr) \<and> nat i < length (zv pr)
         \<and> nat i < length (a pr)
      then
        (let p1 = GT_ScalarMult B (bn256_Pair B pk (V pr ! nat i)) (c pr);
             p2 = GT_Invert B
                    (GT_ScalarMult B (bn256_Pair B (G1 B) (V pr ! nat i)) (zsig pr ! nat i));
             p1' = GT_Add B (GT_Add B p1 p2) (GT_ScalarMult B (E B) (zv pr ! nat i))
         in Inr (r2 \<and> GT_Marshal B p1' = GT_Marshal B (a pr ! nat i)))
      else Inl IndexOutOfRange)"

text \<open>
  \<^verbatim>\<open>
  D = new(bn256.G2).ScalarMult(proof_out.C, proof_out.c)
  D.Add(D, new(bn256.G2).ScalarMult(p.H, proof_out.zr))
  for i = 0; i< p.l; i++ { ... }
  DBytes := D.Marshal()
  pDBytes := proof_out.D.Marshal()
  r1 = bytes.Equal(DBytes, pDBytes)
  r2 = true
  for i = 0; i< p.l; i++ { ... }
  return r1 && r2, nil
  \<close>
\<close>

definition Verify ::
  "('g1, 'g2, 'gt) library \<Rightarrow> ('g2, 'gt) zkproof \<Rightarrow> ('g1, 'g2) params \<Rightarrow> 'g1
     \<Rightarrow> error + bool" where
  "Verify B pr p pk =
     (case for_loop 0 (l p) (Verify_body1 B pr p)
             (G2_Add B (G2_ScalarMult B (C pr) (c pr)) (G2_ScalarMult B (H p) (zr pr))) of
        Inl e \<Rightarrow> Inl e
      | Inr acc \<Rightarrow>
          (let r1 = (G2_Marshal B acc = G2_Marshal B (D pr))
           in case for_loop 0 (l p) (Verify_body2 B pr pk) True of
                Inl e \<Rightarrow> Inl e
              | Inr r2 \<Rightarrow> Inr (r1 \<and> r2)))"

section \<open>Notions used by the statements\<close>

subsection \<open>The scalars Prove reads from the random source\<close>

text \<open>
  Prove reads \<open>m\<close> first and then, in round \<open>i\<close>, the scalars \<open>v_i\<close>, \<open>s_i\<close> and
  \<open>t_i\<close>, in this order.
\<close>

definition drawn_m :: "int list \<Rightarrow> int" where
  "drawn_m src = src ! 0"

definition drawn_v :: "int list \<Rightarrow> nat \<Rightarrow> int" where
  "drawn_v src i = src ! (1 + 3 * i)"

definition drawn_s :: "int list \<Rightarrow> nat \<Rightarrow> int" where
  "drawn_s src i = src ! (2 + 3 * i)"

definition drawn_t :: "int list \<Rightarrow> nat \<Rightarrow> int" where
  "drawn_t src i = src ! (3 + 3 * i)"

subsection \<open>What is assumed of the pairing library\<close>

text \<open>
  A group of order \<open>q\<close> with its scalar multiplication, written additively: the laws of
  a module over the integers modulo \<open>q\<close>.
\<close>

definition module_laws :: "int \<Rightarrow> ('x \<Rightarrow> 'x \<Rightarrow> 'x) \<Rightarrow> ('x \<Rightarrow> int \<Rightarrow> 'x) \<Rightarrow> bool" where
  "module_laws q add smul \<longleftrightarrow>
     (\<forall>x y z. add (add x y) z = add x (add y z)) \<and>
     (\<forall>x y. add x y = add y x) \<and>
     (\<forall>x y. add x (smul y 0) = x) \<and>
     (\<forall>x. smul x 1 = x) \<and>
     (\<forall>x j k. smul x (j + k) = add (smul x j) (smul x k)) \<and>
     (\<forall>x j k. smul (smul x j) k = smul x (j * k)) \<and>
     (\<forall>x y k. smul (add x y) k = add (smul x k) (smul y k)) \<and>
     (\<forall>x k. smul x (k mod q) = smul x k)"

text \<open>
  The interface of section 6 of the specification: \<open>G2\<close> and \<open>GT\<close> are groups of order
  \<open>Order\<close>; the point at infinity is the neutral element of \<open>G2\<close>; \<open>ScalarBaseMult\<close>
  multiplies the fixed generator, whose order is exactly \<open>Order\<close>; \<open>Invert\<close> is the
  inverse in \<open>GT\<close>; the pairing is linear in its second argument; serialization is
  canonical (equal bytes mean equal elements).
\<close>

definition bn256_laws :: "('g1, 'g2, 'gt) library \<Rightarrow> bool" where
  "bn256_laws B \<longleftrightarrow>
     1 < Order B \<and>
     module_laws (Order B) (G2_Add B) (G2_ScalarMult B) \<and>
     module_laws (Order B) (GT_Add B) (GT_ScalarMult B) \<and>
     (\<forall>x. G2_Add B (G2_SetInfinity B) x = x) \<and>
     (\<forall>k. G2_ScalarBaseMult B k = G2_ScalarMult B (G2 B) k) \<and>
     (\<forall>j k. G2_ScalarBaseMult B j = G2_ScalarBaseMult B k \<longrightarrow> j mod Order B = k mod Order B) \<and>
     (\<forall>x. GT_Invert B x = GT_ScalarMult B x (- 1)) \<and>
     (\<forall>g A k. bn256_Pair B g (G2_ScalarMult B A k) = GT_ScalarMult B (bn256_Pair B g A) k) \<and>
     (\<forall>x y. G2_Marshal B x = G2_Marshal B y \<longrightarrow> x = y) \<and>
     (\<forall>x y. GT_Marshal B x = GT_Marshal B y \<longrightarrow> x = y)"

text \<open>
  What is assumed of \<^verbatim>\<open>keygen\<close> and \<^verbatim>\<open>sign\<close>: the signature \<open>A\<close> on the digit \<open>d\<close>
  verifies under the public key \<open>y\<close>, that is \<open>e(y, A) \<cdot> e(g, A)^d = e(g, g)\<close>; and the
  authority could sign every digit below \<open>U\<close>.
\<close>

definition signature_verifies :: "('g1, 'g2, 'gt) library \<Rightarrow> 'g1 \<Rightarrow> int \<Rightarrow> 'g2 \<Rightarrow> bool" where
  "signature_verifies B pk d A \<longleftrightarrow>
     GT_Add B (bn256_Pair B pk A) (GT_ScalarMult B (bn256_Pair B (G1 B) A) d) = E B"

definition signs_digits :: "('g1, 'g2, 'gt) library \<Rightarrow> 'g1 keypair \<Rightarrow> int \<Rightarrow> bool" where
  "signs_digits B keys U \<longleftrightarrow>
     (\<forall>d. 0 \<le> d \<and> d < U \<longrightarrow>
        (\<exists>A. sign B d (privk keys) = Some A \<and> signature_verifies B (pubk keys) d A))"

subsection \<open>The two checks of Verify, in the words of the specification\<close>

text \<open>
  \<open>D' = C^c \<cdot> H^zr \<cdot> \<Prod> g2^(zsig_i \<cdot> U^i)\<close>, the factors taken in the order of the
  index, and \<open>a_i' = e(pk, V_i)^c \<cdot> e(g1, V_i)^(- zsig_i) \<cdot> e(g1, g2)^(zv_i)\<close>.
\<close>

definition recomputed_D ::
  "('g1, 'g2, 'gt) library \<Rightarrow> ('g2, 'gt) zkproof \<Rightarrow> ('g1, 'g2) params \<Rightarrow> 'g2" where
  "recomputed_D B pr p =
     foldl (G2_Add B)
       (G2_Add B (G2_ScalarMult B (C pr) (c pr)) (G2_ScalarMult B (H p) (zr pr)))
       (map (\<lambda>i. G2_ScalarBaseMult B (zsig pr ! i * u p ^ i)) [0..<nat (l p)])"

definition consistency_check ::
  "('g1, 'g2, 'gt) library \<Rightarrow> ('g2, 'gt) zkproof \<Rightarrow> ('g1, 'g2) params \<Rightarrow> bool" where
  "consistency_check B pr p \<longleftrightarrow> G2_Marshal B (recomputed_D B pr p) = G2_Marshal B (D pr)"

definition recomputed_a ::
  "('g1, 'g2, 'gt) library \<Rightarrow> ('g2, 'gt) zkproof \<Rightarrow> 'g1 \<Rightarrow> nat \<Rightarrow> 'gt" where
  "recomputed_a B pr pk i =
     GT_Add B
       (GT_Add B (GT_ScalarMult B (bn256_Pair B pk (V pr ! i)) (c pr))
                 (GT_ScalarMult B (bn256_Pair B (G1 B) (V pr ! i)) (- (zsig pr ! i))))
       (GT_ScalarMult B (E B) (zv pr ! i))"

definition digit_check ::
  "('g1, 'g2, 'gt) library \<Rightarrow> ('g2, 'gt) zkproof \<Rightarrow> 'g1 \<Rightarrow> nat \<Rightarrow> bool" where
  "digit_check B pr pk i \<longleftrightarrow> GT_Marshal B (recomputed_a B pr pk i) = GT_Marshal B (a pr ! i)"

text \<open>A proof has an entry for each of the \<open>l\<close> digits in every slice that Verify reads.\<close>

definition proof_shape :: "('g2, 'gt) zkproof \<Rightarrow> ('g1, 'g2) params \<Rightarrow> bool" where
  "proof_shape pr p \<longleftrightarrow>
     nat (l p) \<le> length (V pr) \<and> nat (l p) \<le> length (a pr) \<and>
     nat (l p) \<le> length (zsig pr) \<and> nat (l p) \<le> length (zv pr)"

subsection \<open>An ideal pairing library\<close>

text \<open>
  The three groups as the integers modulo the order of the curve (each element is its
  discrete logarithm), the pairing as the product. It satisfies the laws above and is
  the library of the concrete runs below. The order is that of the curve of
  \<^verbatim>\<open>crypto/bn256\<close>.
\<close>

type_synonym Zq = "21888242871839275222246405745257275088548364400416034343698204186575808495617"

definition bn_order :: int where
  "bn_order = 21888242871839275222246405745257275088548364400416034343698204186575808495617"

function inverse_loop :: "int \<Rightarrow> int \<Rightarrow> int \<Rightarrow> int \<Rightarrow> int \<times> int" where
  "inverse_loop t0 t1 r0 r1 =
     (if r1 \<le> 0 then (r0, t0)
      else inverse_loop t1 (t0 - (r0 div r1) * t1) r1 (r0 mod r1))"
  by pat_completeness auto
termination
  by (relation "measure (\<lambda>(t0, t1, r0, r1). nat r1)") auto

declare inverse_loop.simps [simp del]

definition ModInverse :: "int \<Rightarrow> int \<Rightarrow> int option" where
  "ModInverse k n =
     (case inverse_loop 0 1 n (k mod n) of (g, t0) \<Rightarrow> if g = 1 then Some (t0 mod n) else None)"

definition Zq_String :: "string \<Rightarrow> Zq \<Rightarrow> string" where
  "Zq_String tag x = tag @ ''('' @ FormatInt (Rep_bit1 x) @ '')''"

definition Zq_Marshal :: "Zq \<Rightarrow> byte list" where
  "Zq_Marshal x = map of_int (rev (digits (Rep_bit1 x) 256 32))"

definition be_int :: "byte list \<Rightarrow> int" where
  "be_int bs = foldl (\<lambda>k b. k * 256 + uint b) 0 bs"

definition ideal :: "(Zq, Zq, Zq) library" where
  "ideal =
     \<lparr>Order = bn_order,
      G1_ScalarBaseMult = of_int,
      G2_ScalarBaseMult = of_int,
      G2_ScalarMult = (\<lambda>x k. x * of_int k),
      G2_Add = (+),
      G2_SetInfinity = 0,
      G2_Marshal = Zq_Marshal,
      G2_String = Zq_String ''bn256.G2'',
      bn256_Pair = (*),
      GT_ScalarMult = (\<lambda>x k. x * of_int k),
      GT_Add = (+),
      GT_Invert = uminus,
      GT_Marshal = Zq_Marshal,
      GT_String = Zq_String ''bn256.GT'',
      sign = (\<lambda>d sk. map_option of_int (ModInverse (Mod (d + sk) bn_order) bn_order)),
      FromByteArray = be_int\<rparr>"

text \<open>The key pair, the parameters and the random source of the concrete runs.\<close>

definition keys0 :: "Zq keypair" where
  "keys0 = \<lparr>pubk = 1, privk = 1\<rparr>"

definition params0 :: "int \<Rightarrow> int \<Rightarrow> (Zq, Zq) params" where
  "params0 U L =
     \<lparr>signatures = (\<lambda>k. if k = ''0'' then Some 1
                         else if k = ''1''
                         then Some 10944121435919637611123202872628637544274182200208017171849102093287904247809
                         else None),
      H = of_int h_scalar, kp = keys0, u = U, l = L\<rparr>"

definition source0 :: "int list" where
  "source0 = [7, 11, 12, 13, 21, 22, 23, 31, 32, 33, 41, 42, 43, 51, 52, 53, 61, 62, 63,
              71, 72, 73, 81, 82, 83]"

subsection \<open>The signature table after Setup's loop\<close>

text \<open>The table that holds the signatures on the digits below \<open>n\<close>, stored in this order.\<close>

fun signed_upto :: "('g1, 'g2, 'gt) library \<Rightarrow> int \<Rightarrow> nat \<Rightarrow> string \<Rightarrow> 'g2 option" where
  "signed_upto B sk 0 = (\<lambda>k. None)"
| "signed_upto B sk (Suc n) = (signed_upto B sk n) (FormatInt (int n) := sign B (int n) sk)"

subsection \<open>Prove in closed form\<close>

text \<open>
  The variables of the first loop of Prove at the head of round \<open>k\<close>, when the random
  source is \<open>src\<close> and \<open>A i\<close> is the signature looked up in round \<open>i\<close>; and the proof
  that Prove returns for the digits \<open>decx\<close>.
\<close>

definition loop1_vars ::
  "('g1, 'g2, 'gt) library \<Rightarrow> ('g1, 'g2) params \<Rightarrow> int list \<Rightarrow> (nat \<Rightarrow> 'g2) \<Rightarrow> nat
     \<Rightarrow> ('g2, 'gt) prove_vars" where
  "loop1_vars B p src A k =
     \<lparr>loc_rand = drop (1 + 3 * k) src,
      loc_v = map (drawn_v src) [0..<k],
      loc_D = foldl (G2_Add B) (G2_ScalarMult B (H p) (drawn_m src))
                (map (\<lambda>i. G2_ScalarBaseMult B
                              (Mod (Multiply (drawn_s src i) (u p ^ i)) (Order B))) [0..<k]),
      loc_V = map (\<lambda>i. G2_ScalarMult B (A i) (drawn_v src i)) [0..<k],
      loc_s = map (drawn_s src) [0..<k],
      loc_t = map (drawn_t src) [0..<k],
      loc_a = map (\<lambda>i. GT_Add B
                           (GT_Invert B
                              (GT_ScalarMult B
                                 (bn256_Pair B (G1 B) (G2_ScalarMult B (A i) (drawn_v src i)))
                                 (drawn_s src i)))
                           (GT_ScalarMult B (E B) (drawn_t src i))) [0..<k]\<rparr>"

definition honest_proof ::
  "('g1, 'g2, 'gt) library \<Rightarrow> ('g1, 'g2) params \<Rightarrow> int list \<Rightarrow> (nat \<Rightarrow> 'g2) \<Rightarrow> int list
     \<Rightarrow> int \<Rightarrow> int \<Rightarrow> ('g2, 'gt) zkproof" where
  "honest_proof B p src A decx x r =
     (let st = loop1_vars B p src A (nat (l p));
          D_out = G2_Add B (G2_SetInfinity B) (loc_D st);
          ch = Mod (Hash B (loc_a st) D_out) (Order B)
      in \<lparr>V = loc_V st, D = D_out, C = Commit B x r p, a = loc_a st,
           s = loc_s st, t = loc_t st,
           zsig = map (\<lambda>i. Mod (Sub (drawn_s src i) (Multiply (decx ! i) ch)) (Order B))
                    [0..<nat (l p)],
           zv = map (\<lambda>i. Mod (Sub (drawn_t src i) (Multiply (drawn_v src i) ch)) (Order B))
                  [0..<nat (l p)],
           c = ch, m = drawn_m src,
           zr = Mod (Sub (drawn_m src) (Multiply r ch)) (Order B)\<rparr>)"

text \<open>The parameters that Setup returns.\<close>

definition setup_params ::
  "('g1, 'g2, 'gt) library \<Rightarrow> 'g1 keypair \<Rightarrow> int \<Rightarrow> int \<Rightarrow> ('g1, 'g2) params" where
  "setup_params B keys U L =
     \<lparr>signatures = signed_upto B (privk keys) (nat U),
      H = G2_ScalarBaseMult B h_scalar, kp = keys, u = U, l = L\<rparr>"

text \<open>A one-digit proof for the parameters \<open>params0 2 1\<close>, all of whose scalars are zero.\<close>

definition proof0 :: "(Zq, Zq) zkproof" where
  "proof0 = \<lparr>V = [1], D = 0, C = 0, a = [0], s = [], t = [], zsig = [0], zv = [0],
             c = 0, m = 0, zr = 0\<rparr>"

text \<open>The same proof with another aggregate element \<open>D\<close>.\<close>

definition proof1 :: "(Zq, Zq) zkproof" where
  "proof1 = proof0\<lparr>D := 1\<rparr>"

section \<open>Properties of Decompose\<close>

lemma length_digits: "length (digits x b n) = n"
  by (induction n arbitrary: x) simp_all

lemma Decompose_loop_digits:
  "b \<noteq> 0 \<Longrightarrow> 0 \<le> i \<Longrightarrow> i \<le> n \<Longrightarrow> length result = nat n \<Longrightarrow>
   Decompose_loop b n result x i = Inr (take (nat i) result @ digits x b (nat (n - i)))"
proof (induction b n result x i rule: Decompose_loop.induct)
  case (1 b n result x i)
  show ?case
  proof (cases "i < n")
    case False
    with "1.prems" have "i = n" by simp
    with "1.prems" show ?thesis
      by (simp add: Decompose_loop.simps [of b n result x n])
  next
    case True
    let ?d = "big_Mod x b"
    let ?r = "result[nat i := ?d]"
    have n: "nat (n - i) = Suc (nat (n - (i + 1)))"
      using True by simp
    have lt: "nat i < length result"
      using True "1.prems" by simp
    have "Decompose_loop b n result x i = Decompose_loop b n ?r (big_Div x b) (i + 1)"
      using True "1.prems"(1) by (simp add: Decompose_loop.simps [of b n result x i])
    also have "\<dots> = Inr (take (nat (i + 1)) ?r @ digits (big_Div x b) b (nat (n - (i + 1))))"
      using "1.IH" [OF True "1.prems"(1)] True "1.prems" by simp
    also have "take (nat (i + 1)) ?r = take (nat i) result @ [?d]"
    proof -
      have "nat (i + 1) = Suc (nat i)" using "1.prems" by simp
      then show ?thesis using lt by (simp add: take_Suc_conv_app_nth)
    qed
    finally show ?thesis by (simp add: n)
  qed
qed

lemma Decompose_digits:
  "b \<noteq> 0 \<Longrightarrow> 0 \<le> n \<Longrightarrow> Decompose x b n = Inr (digits x b (nat n))"
  using Decompose_loop_digits [of b 0 n "replicate (nat n) 0" x]
  by (simp add: Decompose_def)

lemma digits_range: "1 \<le> b \<Longrightarrow> d \<in> set (digits x b n) \<Longrightarrow> 0 \<le> d \<and> d < b"
  by (induction n arbitrary: x) (auto simp: big_Mod_def)

lemma positional_sum_Cons: "positional_sum b (d # ds) = d + b * positional_sum b ds"
proof -
  have "(\<Sum>i<Suc (length ds). (d # ds) ! i * b ^ i)
        = d + (\<Sum>i<length ds. ds ! i * b ^ Suc i)"
    by (simp only: sum.lessThan_Suc_shift) simp
  also have "(\<Sum>i<length ds. ds ! i * b ^ Suc i) = b * (\<Sum>i<length ds. ds ! i * b ^ i)"
    by (simp add: sum_distrib_left mult.assoc mult.left_commute)
  finally show ?thesis by (simp add: positional_sum_def)
qed

lemma positional_sum_digits:
  "1 \<le> b \<Longrightarrow> positional_sum b (digits x b n) = x mod b ^ n"
proof (induction n arbitrary: x)
  case 0
  show ?case by (simp add: positional_sum_def)
next
  case (Suc n)
  have "positional_sum b (digits x b (Suc n)) = x mod b + b * ((x div b) mod b ^ n)"
    using Suc by (simp add: positional_sum_Cons big_Mod_def big_Div_def)
  also have "\<dots> = x mod (b * b ^ n)"
    using Suc.prems by (simp add: zmod_zmult2_eq)
  finally show ?case by simp
qed

lemma digits_mod: "1 \<le> b \<Longrightarrow> digits (x mod b ^ n) b n = digits x b n"
proof (induction n arbitrary: x)
  case 0
  show ?case by simp
next
  case (Suc n)
  have b: "\<bar>b\<bar> = b" "sgn b = 1" using Suc.prems by simp_all
  have r: "x mod (b * b ^ n) mod b = x mod b"
    by (simp add: mod_mod_cancel)
  have q: "x mod (b * b ^ n) div b = (x div b) mod b ^ n"
    using Suc.prems by (simp add: zmod_zmult2_eq)
  show ?case
    using Suc.IH [OF Suc.prems, of "x div b"] by (simp add: big_Mod_def big_Div_def b r q)
qed

text \<open>
  C5. For every \<open>x\<close> in \<open>[0, U^L)\<close> with \<open>U \<ge> 1\<close> and \<open>L \<ge> 0\<close>, Decompose returns
  (with a nil error) a sequence of exactly \<open>L\<close> integers, each in \<open>[0, U)\<close>, least
  significant digit first, whose positional sum \<open>\<Sum> digit_i * U^i\<close> is \<open>x\<close>.
\<close>

theorem Decompose_round_trip:
  assumes "1 \<le> U" and "0 \<le> L" and "0 \<le> x" and "x < U ^ nat L"
  shows "\<exists>ds. Decompose x U L = Inr ds \<and> length ds = nat L
           \<and> (\<forall>d \<in> set ds. 0 \<le> d \<and> d < U)
           \<and> (\<Sum>i<length ds. ds ! i * U ^ i) = x"
proof -
  have "Decompose x U L = Inr (digits x U (nat L))"
    using assms by (simp add: Decompose_digits)
  moreover have "\<forall>d \<in> set (digits x U (nat L)). 0 \<le> d \<and> d < U"
    using assms(1) digits_range by blast
  moreover have "positional_sum U (digits x U (nat L)) = x"
    using assms by (simp add: positional_sum_digits)
  ultimately show ?thesis
    by (simp add: length_digits positional_sum_def)
qed

theorem Decompose_round_trip_witness:
  "\<exists>ds. Decompose 200 2 8 = Inr ds \<and> length ds = nat 8
      \<and> (\<forall>d \<in> set ds. 0 \<le> d \<and> d < 2)
      \<and> (\<Sum>i<length ds. ds ! i * 2 ^ i) = 200"
  using Decompose_round_trip [of 2 8 200] by simp

text \<open>
  C10. For every non-negative \<open>x \<ge> U^L\<close> (\<open>U \<ge> 1\<close>, \<open>L \<ge> 0\<close>) Decompose returns a nil
  error and exactly \<open>L\<close> digits, which are the base-\<open>U\<close> decomposition of
  \<open>x mod U^L\<close>: the high-order part of \<open>x\<close> is dropped and no failure is signalled.
\<close>

theorem Decompose_truncates:
  assumes "1 \<le> U" and "0 \<le> L" and "0 \<le> x" and "U ^ nat L \<le> x"
  shows "\<exists>ds. Decompose x U L = Inr ds \<and> length ds = nat L
           \<and> Decompose (x mod U ^ nat L) U L = Inr ds
           \<and> (\<forall>d \<in> set ds. 0 \<le> d \<and> d < U)
           \<and> (\<Sum>i<length ds. ds ! i * U ^ i) = x mod U ^ nat L"
proof -
  let ?ds = "digits x U (nat L)"
  have "Decompose x U L = Inr ?ds"
    using assms by (simp add: Decompose_digits)
  moreover have "Decompose (x mod U ^ nat L) U L = Inr ?ds"
    using assms by (simp add: Decompose_digits digits_mod)
  moreover have "\<forall>d \<in> set ?ds. 0 \<le> d \<and> d < U"
    using assms(1) digits_range by blast
  moreover have "positional_sum U ?ds = x mod U ^ nat L"
    using assms(1) by (simp add: positional_sum_digits)
  ultimately show ?thesis
    by (simp add: length_digits positional_sum_def)
qed

theorem Decompose_truncates_witness:
  "\<exists>ds. Decompose 300 2 8 = Inr ds \<and> length ds = nat 8
      \<and> Decompose (300 mod 2 ^ nat 8) 2 8 = Inr ds
      \<and> (\<forall>d \<in> set ds. 0 \<le> d \<and> d < 2)
      \<and> (\<Sum>i<length ds. ds ! i * 2 ^ i) = 300 mod 2 ^ nat 8"
  using Decompose_truncates [of 2 8 300] by simp

section \<open>Counted loops\<close>

lemma for_loop_done: "n \<le> i \<Longrightarrow> for_loop i n body st = Inr st"
  by (simp add: for_loop.simps [of i n body st])

lemma for_loop_step:
  "i < n \<Longrightarrow> for_loop i n body st =
     (case body i st of Inl e \<Rightarrow> Inl e | Inr st' \<Rightarrow> for_loop (i + 1) n body st')"
  by (simp add: for_loop.simps [of i n body st])

lemma for_loop_fails: "i < n \<Longrightarrow> body i st = Inl e \<Longrightarrow> for_loop i n body st = Inl e"
  by (simp add: for_loop_step)

text \<open>
  A loop whose round \<open>k\<close> takes the state \<open>F k\<close> to the state \<open>F (k + 1)\<close> ends in the
  state \<open>F n\<close>.
\<close>

lemma for_loop_invariant:
  assumes "\<And>k. i \<le> k \<Longrightarrow> k < n \<Longrightarrow> body k (F k) = Inr (F (k + 1))" and "i \<le> n"
  shows "for_loop i n body (F i) = Inr (F n)"
  using assms
proof (induction "nat (n - i)" arbitrary: i)
  case 0
  then have "i = n" by simp
  then show ?case by (simp add: for_loop_done)
next
  case (Suc j)
  then have lt: "i < n" by simp
  have "for_loop (i + 1) n body (F (i + 1)) = Inr (F n)"
  proof (rule Suc.hyps(1))
    show "j = nat (n - (i + 1))" using Suc.hyps(2) by simp
    show "\<And>k. i + 1 \<le> k \<Longrightarrow> k < n \<Longrightarrow> body k (F k) = Inr (F (k + 1))"
      using Suc.prems(1) by simp
    show "i + 1 \<le> n" using lt by simp
  qed
  moreover have "body i (F i) = Inr (F (i + 1))"
    using Suc.prems(1) [of i] lt by simp
  ultimately show ?case
    using lt by (simp add: for_loop_step)
qed

section \<open>FormatInt is injective on the digits\<close>

lemma dec_string_not_Nil: "dec_string n \<noteq> []"
  by (subst dec_string.simps) simp

lemma digit_char_inj: "i < 10 \<Longrightarrow> j < 10 \<Longrightarrow> digit_char i = digit_char j \<Longrightarrow> i = j"
proof -
  have "distinct ''0123456789''" by simp
  moreover have "length ''0123456789'' = 10" by simp
  ultimately show "i < 10 \<Longrightarrow> j < 10 \<Longrightarrow> digit_char i = digit_char j \<Longrightarrow> i = j"
    unfolding digit_char_def by (metis nth_eq_iff_index_eq)
qed

lemma dec_string_inj: "dec_string i = dec_string j \<Longrightarrow> i = j"
proof (induction i arbitrary: j rule: dec_string.induct)
  case (1 n)
  show ?case
  proof (cases "n < 10")
    case True
    then have n: "dec_string n = [digit_char n]"
      by (subst dec_string.simps) simp
    show ?thesis
    proof (cases "j < 10")
      case j: True
      then have "dec_string j = [digit_char j]"
        by (subst dec_string.simps) simp
      with n "1.prems" True j show ?thesis
        by (simp add: digit_char_inj)
    next
      case False
      then have "dec_string j = dec_string (j div 10) @ [digit_char (j mod 10)]"
        by (subst dec_string.simps) simp
      with n "1.prems" dec_string_not_Nil [of "j div 10"] show ?thesis
        by simp
    qed
  next
    case False
    then have n: "dec_string n = dec_string (n div 10) @ [digit_char (n mod 10)]"
      by (subst dec_string.simps) simp
    show ?thesis
    proof (cases "j < 10")
      case True
      then have "dec_string j = [digit_char j]"
        by (subst dec_string.simps) simp
      with n "1.prems" dec_string_not_Nil [of "n div 10"] show ?thesis
        by simp
    next
      case j: False
      then have "dec_string j = dec_string (j div 10) @ [digit_char (j mod 10)]"
        by (subst dec_string.simps) simp
      with n "1.prems" have eq: "dec_string (n div 10) = dec_string (j div 10)"
          "digit_char (n mod 10) = digit_char (j mod 10)"
        by simp_all
      have "n div 10 = j div 10"
        using "1.IH" [OF False eq(1)] .
      moreover have "n mod 10 = j mod 10"
        using eq(2) by (simp add: digit_char_inj)
      ultimately show ?thesis
        by (metis div_mult_mod_eq)
    qed
  qed
qed

lemma FormatInt_inj: "0 \<le> i \<Longrightarrow> 0 \<le> j \<Longrightarrow> FormatInt i = FormatInt j \<Longrightarrow> i = j"
  using dec_string_inj [of "nat i" "nat j"] by (simp add: FormatInt_def)

section \<open>Setup\<close>

lemma signed_upto_lookup:
  "d < n \<Longrightarrow> signed_upto B sk n (FormatInt (int d)) = sign B (int d) sk"
proof (induction n)
  case 0
  then show ?case by simp
next
  case (Suc n)
  show ?case
  proof (cases "d = n")
    case True
    then show ?thesis by simp
  next
    case False
    then have "FormatInt (int d) \<noteq> FormatInt (int n)"
      using FormatInt_inj [of "int d" "int n"] by auto
    with Suc False show ?thesis by simp
  qed
qed

lemma Setup_loop:
  "for_loop 0 U (Setup_body B sk) (\<lambda>k. None) = Inr (signed_upto B sk (nat U))"
proof (cases "0 \<le> U")
  case True
  have "for_loop 0 U (Setup_body B sk) (signed_upto B sk (nat 0))
        = Inr (signed_upto B sk (nat U))"
  proof (rule for_loop_invariant [where F = "\<lambda>k. signed_upto B sk (nat k)"])
    fix k :: int
    assume "0 \<le> k" "k < U"
    then have "nat (k + 1) = Suc (nat k)" by simp
    then show "Setup_body B sk k (signed_upto B sk (nat k))
               = Inr (signed_upto B sk (nat (k + 1)))"
      using \<open>0 \<le> k\<close> by (simp add: Setup_body_def)
  qed (rule True)
  then show ?thesis by simp
next
  case False
  then show ?thesis by (simp add: for_loop_done)
qed

lemma Setup_eq: "Setup B keys U L = Inr (setup_params B keys U L)"
  by (simp add: Setup_def Setup_loop setup_params_def)

lemma setup_params_fields:
  "u (setup_params B keys U L) = U"
  "l (setup_params B keys U L) = L"
  "H (setup_params B keys U L) = G2_ScalarBaseMult B h_scalar"
  "kp (setup_params B keys U L) = keys"
  "signatures (setup_params B keys U L) = signed_upto B (privk keys) (nat U)"
  by (simp_all add: setup_params_def)

lemma setup_params_lookup:
  assumes "0 \<le> d" and "d < U"
  shows "signatures (setup_params B keys U L) (FormatInt d) = sign B d (privk keys)"
  using assms signed_upto_lookup [of "nat d" "nat U" B "privk keys"]
  by (simp add: setup_params_fields)

section \<open>Modules over the integers modulo the order\<close>

lemma module_lawsD:
  assumes "module_laws q add smul"
  shows m_assoc: "add (add x y) z = add x (add y z)"
    and m_comm: "add x y = add y x"
    and m_zero: "add x (smul y 0) = x"
    and m_one: "smul x 1 = x"
    and m_sadd: "smul x (j + k) = add (smul x j) (smul x k)"
    and m_smul: "smul (smul x j) k = smul x (j * k)"
    and m_addsmul: "smul (add x y) k = add (smul x k) (smul y k)"
    and m_mod: "smul x (k mod q) = smul x k"
  using assms unfolding module_laws_def by blast+

lemma m_left_comm:
  assumes "module_laws q add smul"
  shows "add x (add y z) = add y (add x z)"
  by (metis m_assoc [OF assms] m_comm [OF assms])

lemma m_cong:
  assumes "module_laws q add smul" and "j mod q = k mod q"
  shows "smul x j = smul x k"
  by (metis m_mod [OF assms(1)] assms(2))

lemma m_cancel:
  assumes M: "module_laws q add smul" and eq: "add x y = add x z"
  shows "y = z"
proof -
  have inv: "add w (add x (smul x (- 1))) = w" for w
  proof -
    have "add x (smul x (- 1)) = add (smul x 1) (smul x (- 1))"
      by (simp add: m_one [OF M])
    also have "\<dots> = smul x (1 + (- 1))"
      by (rule m_sadd [OF M, symmetric])
    finally show ?thesis by (simp add: m_zero [OF M])
  qed
  have "y = add y (add x (smul x (- 1)))" by (simp add: inv)
  also have "\<dots> = add (add x y) (smul x (- 1))"
    by (metis m_assoc [OF M] m_comm [OF M])
  also have "\<dots> = add (add x z) (smul x (- 1))" by (simp add: eq)
  also have "\<dots> = add z (add x (smul x (- 1)))"
    by (metis m_assoc [OF M] m_comm [OF M])
  also have "\<dots> = z" by (simp add: inv)
  finally show ?thesis .
qed

lemma m_foldl_sum:
  assumes M: "module_laws q add smul"
  shows "foldl add x (map (\<lambda>i. smul g (f i)) [0..<n]) = add x (smul g (\<Sum>i<n. f i))"
proof (induction n)
  case 0
  show ?case by (simp add: m_zero [OF M])
next
  case (Suc n)
  have "foldl add x (map (\<lambda>i. smul g (f i)) [0..<Suc n])
        = add (add x (smul g (\<Sum>i<n. f i))) (smul g (f n))"
    using Suc by simp
  also have "\<dots> = add x (smul g ((\<Sum>i<n. f i) + f n))"
    by (simp add: m_assoc [OF M] m_sadd [OF M])
  finally show ?case by simp
qed

text \<open>The equation behind the per-digit check.\<close>

lemma m_digit_identity:
  assumes M: "module_laws q add smul"
    and sig: "add Y (smul P d) = E0"
    and zs: "zs = (sv - d * ch) mod q"
    and zt: "zt = (tv - v * ch) mod q"
  shows "add (add (smul (smul Y v) ch) (smul (smul (smul P v) zs) (- 1))) (smul E0 zt)
         = add (smul (smul (smul P v) sv) (- 1)) (smul E0 tv)"
proof -
  note ac = m_assoc [OF M] m_comm [OF M] m_left_comm [OF M]
  have comb: "add (add (smul Y j) (smul P k)) (add (smul Y j') (smul P k'))
              = add (smul Y (j + j')) (smul P (k + k'))" for j k j' k'
    by (simp add: m_sadd [OF M] ac)
  have E0: "smul E0 k = add (smul Y k) (smul P (d * k))" for k
    by (simp add: sig [symmetric] m_addsmul [OF M] m_smul [OF M])
  have Y0: "smul (smul Y v) ch = add (smul Y (v * ch)) (smul P 0)"
    by (simp add: m_smul [OF M] m_zero [OF M])
  have P0: "smul (smul (smul P v) k) (- 1) = add (smul Y 0) (smul P (- (v * k)))" for k
  proof -
    have "add (smul Y 0) (smul P (- (v * k))) = smul P (- (v * k))"
      by (metis m_zero [OF M] m_comm [OF M])
    then show ?thesis by (simp add: m_smul [OF M])
  qed
  have "add (add (smul (smul Y v) ch) (smul (smul (smul P v) zs) (- 1))) (smul E0 zt)
        = add (smul Y (v * ch + 0 + zt)) (smul P (0 + - (v * zs) + d * zt))"
    unfolding Y0 P0 E0 comb ..
  also have "\<dots> = add (smul Y tv) (smul P (- (v * sv) + d * tv))"
  proof -
    have "(v * ch + 0 + zt) mod q = tv mod q"
      by (simp add: zt mod_simps)
    moreover have "(0 + - (v * zs) + d * zt) mod q = (- (v * sv) + d * tv) mod q"
    proof -
      have a: "(v * zs) mod q = (v * (sv - d * ch)) mod q"
        unfolding zs by (simp add: mod_mult_right_eq)
      have b: "(d * zt) mod q = (d * (tv - v * ch)) mod q"
        unfolding zt by (simp add: mod_mult_right_eq)
      have a': "(- (v * zs)) mod q = (- (v * (sv - d * ch))) mod q"
        using a by (metis mod_minus_eq)
      have "(- (v * zs) + d * zt) mod q
            = (- (v * (sv - d * ch)) + d * (tv - v * ch)) mod q"
        by (rule mod_add_cong [OF a' b])
      then have "(0 + - (v * zs) + d * zt) mod q
            = (- (v * (sv - d * ch)) + d * (tv - v * ch)) mod q"
        by simp
      also have "- (v * (sv - d * ch)) + d * (tv - v * ch) = - (v * sv) + d * tv"
        by (simp add: algebra_simps)
      finally show ?thesis .
    qed
    ultimately show ?thesis
      using m_cong [OF M] by metis
  qed
  also have "\<dots> = add (smul (smul (smul P v) sv) (- 1)) (smul E0 tv)"
    unfolding P0 E0 comb by simp
  finally show ?thesis .
qed

text \<open>The congruence behind the consistency check.\<close>

lemma sum_mod_weights:
  "(\<Sum>i<n. (f i mod q) * w i) mod q = (\<Sum>i<n. f i * w i) mod (q :: int)"
proof -
  have "(\<Sum>i<n. (f i mod q) * w i) mod q = (\<Sum>i<n. ((f i mod q) * w i) mod q) mod q"
    by (simp add: mod_sum_eq)
  also have "\<dots> = (\<Sum>i<n. (f i * w i) mod q) mod q"
    by (simp add: mod_mult_left_eq)
  also have "\<dots> = (\<Sum>i<n. f i * w i) mod q"
    by (simp add: mod_sum_eq)
  finally show ?thesis .
qed

lemma responses_congruence:
  fixes q :: int
  assumes "x = (\<Sum>i<n. d i * w i)"
  shows "(x * ch + (\<Sum>i<n. ((sv i - d i * ch) mod q) * w i)) mod q = (\<Sum>i<n. sv i * w i) mod q"
proof -
  have "(x * ch + (\<Sum>i<n. ((sv i - d i * ch) mod q) * w i)) mod q
        = (x * ch + (\<Sum>i<n. (sv i - d i * ch) * w i)) mod q"
    by (rule mod_add_cong [OF refl sum_mod_weights])
  also have "(\<Sum>i<n. (sv i - d i * ch) * w i) = (\<Sum>i<n. sv i * w i) - ch * (\<Sum>i<n. d i * w i)"
    by (simp add: sum_subtractf sum_distrib_left algebra_simps)
  finally show ?thesis unfolding assms by (simp add: algebra_simps)
qed

section \<open>Prove in closed form\<close>

lemma rand_Int_drop:
  "j < length src \<Longrightarrow> rand_Int (drop j src) = Some (src ! j, drop (Suc j) src)"
  by (simp add: rand_Int_def Cons_nth_drop_Suc [symmetric])

lemma Prove_body1_step:
  assumes "signatures p (FormatInt (decx ! k)) = Some (A k)"
    and "k < length decx" and "4 + 3 * k \<le> length src"
  shows "Prove_body1 B p decx (int k) (loop1_vars B p src A k)
         = Inr (loop1_vars B p src A (Suc k))"
proof -
  have r1: "rand_Int (drop (1 + 3 * k) src) = Some (drawn_v src k, drop (2 + 3 * k) src)"
    using assms(3) rand_Int_drop [of "1 + 3 * k" src] by (simp add: drawn_v_def eval_nat_numeral)
  have r2: "rand_Int (drop (2 + 3 * k) src) = Some (drawn_s src k, drop (3 + 3 * k) src)"
    using assms(3) rand_Int_drop [of "2 + 3 * k" src] by (simp add: drawn_s_def eval_nat_numeral)
  have r3: "rand_Int (drop (3 + 3 * k) src) = Some (drawn_t src k, drop (4 + 3 * k) src)"
    using assms(3) rand_Int_drop [of "3 + 3 * k" src] by (simp add: drawn_t_def eval_nat_numeral)
  show ?thesis
    using assms(1,2) r1 r2 r3
    by (simp add: Prove_body1_def loop1_vars_def Let_def)
qed

lemma Prove_loop1:
  assumes sigs: "\<forall>i<nat L. signatures p (FormatInt (decx ! i)) = Some (A i)"
    and len: "nat L \<le> length decx" and src: "1 + 3 * nat L \<le> length src"
  shows "for_loop 0 L (Prove_body1 B p decx) (loop1_vars B p src A 0)
         = Inr (loop1_vars B p src A (nat L))"
proof (cases "0 \<le> L")
  case True
  have "for_loop 0 L (Prove_body1 B p decx) (loop1_vars B p src A (nat 0))
        = Inr (loop1_vars B p src A (nat L))"
  proof (rule for_loop_invariant [where F = "\<lambda>k. loop1_vars B p src A (nat k)"])
    fix k :: int
    assume k: "0 \<le> k" "k < L"
    then have S: "nat (k + 1) = Suc (nat k)" and lt: "nat k < nat L" by simp_all
    have "Prove_body1 B p decx (int (nat k)) (loop1_vars B p src A (nat k))
          = Inr (loop1_vars B p src A (Suc (nat k)))"
      using sigs len src lt by (intro Prove_body1_step) auto
    then show "Prove_body1 B p decx k (loop1_vars B p src A (nat k))
               = Inr (loop1_vars B p src A (nat (k + 1)))"
      using k S by simp
  qed (rule True)
  then show ?thesis by simp
next
  case False
  then show ?thesis by (simp add: for_loop_done)
qed

lemma Prove_loop2:
  assumes len: "nat L \<le> length decx"
  shows "for_loop 0 L (Prove_body2 B decx (loop1_vars B p src A (nat L)) ch) ([], [])
         = Inr (map (\<lambda>i. Mod (Sub (drawn_s src i) (Multiply (decx ! i) ch)) (Order B)) [0..<nat L],
                map (\<lambda>i. Mod (Sub (drawn_t src i) (Multiply (drawn_v src i) ch)) (Order B)) [0..<nat L])"
proof (cases "0 \<le> L")
  case True
  let ?F = "\<lambda>k. (map (\<lambda>i. Mod (Sub (drawn_s src i) (Multiply (decx ! i) ch)) (Order B)) [0..<nat k],
                  map (\<lambda>i. Mod (Sub (drawn_t src i) (Multiply (drawn_v src i) ch)) (Order B)) [0..<nat k])"
  have "for_loop 0 L (Prove_body2 B decx (loop1_vars B p src A (nat L)) ch) (?F 0) = Inr (?F L)"
  proof (rule for_loop_invariant [where F = ?F])
    fix k :: int
    assume k: "0 \<le> k" "k < L"
    then have S: "nat (k + 1) = Suc (nat k)" and lt: "nat k < nat L" by simp_all
    have kd: "nat k < length decx" by (rule less_le_trans [OF lt len])
    have kn: "nat k < nat L \<longleftrightarrow> True" using lt by simp
    show "Prove_body2 B decx (loop1_vars B p src A (nat L)) ch k (?F k) = Inr (?F (k + 1))"
      using kd by (simp add: Prove_body2_def loop1_vars_def S kn del: nat_less_iff zless_nat_conj)
  qed (rule True)
  then show ?thesis by simp
next
  case False
  then show ?thesis by (simp add: for_loop_done)
qed

lemma Prove_eq:
  assumes dec: "Decompose x (u p) (l p) = Inr decx"
    and len: "nat (l p) \<le> length decx"
    and sigs: "\<forall>i<nat (l p). signatures p (FormatInt (decx ! i)) = Some (A i)"
    and src: "1 + 3 * nat (l p) \<le> length src"
  shows "Prove B src x r p = Inr (honest_proof B p src A decx x r)"
proof -
  obtain m0 src0 where s0: "src = m0 # src0"
    using src by (cases src) auto
  have r0: "rand_Int src = Some (m0, src0)"
    by (simp add: rand_Int_def s0)
  have dm: "drawn_m src = m0"
    by (simp add: drawn_m_def s0)
  have init: "\<lparr>loc_rand = src0, loc_v = [], loc_D = G2_ScalarMult B (H p) m0,
               loc_V = [], loc_s = [], loc_t = [], loc_a = []\<rparr> = loop1_vars B p src A 0"
    by (simp add: loop1_vars_def s0 drawn_m_def)
  show ?thesis
    by (simp add: Prove_def dec r0 init Prove_loop1 [OF sigs len src] Prove_loop2 [OF len]
          honest_proof_def Let_def dm)
qed

section \<open>Verify in closed form\<close>

lemma Verify_loop1:
  assumes "nat L \<le> length (zsig pr)"
  shows "for_loop 0 L (Verify_body1 B pr p) acc
         = Inr (foldl (G2_Add B) acc
                  (map (\<lambda>i. G2_ScalarBaseMult B
                               (Mod (Multiply (zsig pr ! i) (u p ^ i)) (Order B))) [0..<nat L]))"
proof (cases "0 \<le> L")
  case True
  let ?F = "\<lambda>k. foldl (G2_Add B) acc
                  (map (\<lambda>i. G2_ScalarBaseMult B
                               (Mod (Multiply (zsig pr ! i) (u p ^ i)) (Order B))) [0..<nat k])"
  have "for_loop 0 L (Verify_body1 B pr p) (?F 0) = Inr (?F L)"
  proof (rule for_loop_invariant [where F = ?F])
    fix k :: int
    assume k: "0 \<le> k" "k < L"
    then have S: "nat (k + 1) = Suc (nat k)" and lt: "nat k < nat L" by simp_all
    have kz: "nat k < length (zsig pr)" by (rule less_le_trans [OF lt assms])
    show "Verify_body1 B pr p k (?F k) = Inr (?F (k + 1))"
      using kz by (simp add: Verify_body1_def S)
  qed (rule True)
  then show ?thesis by simp
next
  case False
  then show ?thesis by (simp add: for_loop_done)
qed

lemma Verify_loop2:
  assumes "nat L \<le> length (V pr)" "nat L \<le> length (zsig pr)"
    "nat L \<le> length (zv pr)" "nat L \<le> length (a pr)"
  shows "for_loop 0 L (Verify_body2 B pr pk) True
         = Inr (\<forall>i<nat L.
                  GT_Marshal B
                    (GT_Add B
                       (GT_Add B (GT_ScalarMult B (bn256_Pair B pk (V pr ! i)) (c pr))
                          (GT_Invert B
                             (GT_ScalarMult B (bn256_Pair B (G1 B) (V pr ! i)) (zsig pr ! i))))
                       (GT_ScalarMult B (E B) (zv pr ! i)))
                  = GT_Marshal B (a pr ! i))"
proof (cases "0 \<le> L")
  case True
  let ?chk = "\<lambda>i. GT_Marshal B
                    (GT_Add B
                       (GT_Add B (GT_ScalarMult B (bn256_Pair B pk (V pr ! i)) (c pr))
                          (GT_Invert B
                             (GT_ScalarMult B (bn256_Pair B (G1 B) (V pr ! i)) (zsig pr ! i))))
                       (GT_ScalarMult B (E B) (zv pr ! i)))
                  = GT_Marshal B (a pr ! i)"
  let ?F = "\<lambda>k. \<forall>i<nat k. ?chk i"
  have "for_loop 0 L (Verify_body2 B pr pk) (?F 0) = Inr (?F L)"
  proof (rule for_loop_invariant [where F = ?F])
    fix k :: int
    assume k: "0 \<le> k" "k < L"
    then have S: "nat (k + 1) = Suc (nat k)" and lt: "nat k < nat L" by simp_all
    have kl: "nat k < length (V pr)" "nat k < length (zsig pr)"
        "nat k < length (zv pr)" "nat k < length (a pr)"
      using lt assms by linarith+
    have all_Suc: "(\<forall>i<Suc j. P i) \<longleftrightarrow> (\<forall>i<j. P i) \<and> P j" for P and j :: nat
      by (auto simp: less_Suc_eq)
    show "Verify_body2 B pr pk k (?F k) = Inr (?F (k + 1))"
      using kl by (simp add: Verify_body2_def S Let_def all_Suc)
  qed (rule True)
  then show ?thesis by simp
next
  case False
  then show ?thesis by (simp add: for_loop_done)
qed

lemma Verify_eq:
  assumes "proof_shape pr p"
  shows "Verify B pr p pk =
     Inr (G2_Marshal B
            (foldl (G2_Add B)
               (G2_Add B (G2_ScalarMult B (C pr) (c pr)) (G2_ScalarMult B (H p) (zr pr)))
               (map (\<lambda>i. G2_ScalarBaseMult B
                            (Mod (Multiply (zsig pr ! i) (u p ^ i)) (Order B))) [0..<nat (l p)]))
          = G2_Marshal B (D pr)
          \<and> (\<forall>i<nat (l p).
                  GT_Marshal B
                    (GT_Add B
                       (GT_Add B (GT_ScalarMult B (bn256_Pair B pk (V pr ! i)) (c pr))
                          (GT_Invert B
                             (GT_ScalarMult B (bn256_Pair B (G1 B) (V pr ! i)) (zsig pr ! i))))
                       (GT_ScalarMult B (E B) (zv pr ! i)))
                  = GT_Marshal B (a pr ! i)))"
  using assms
  by (simp add: Verify_def proof_shape_def Verify_loop1 Verify_loop2 Let_def)

section \<open>Consequences of the laws of the library\<close>

lemma bn256_lawsD:
  assumes "bn256_laws B"
  shows order_gt_1: "1 < Order B"
    and G2_module: "module_laws (Order B) (G2_Add B) (G2_ScalarMult B)"
    and GT_module: "module_laws (Order B) (GT_Add B) (GT_ScalarMult B)"
    and G2_infinity: "G2_Add B (G2_SetInfinity B) x = x"
    and G2_base: "G2_ScalarBaseMult B k = G2_ScalarMult B (G2 B) k"
    and G2_base_inj: "G2_ScalarBaseMult B j = G2_ScalarBaseMult B k \<Longrightarrow> j mod Order B = k mod Order B"
    and GT_invert: "GT_Invert B y = GT_ScalarMult B y (- 1)"
    and pair_linear: "bn256_Pair B g (G2_ScalarMult B A k) = GT_ScalarMult B (bn256_Pair B g A) k"
    and G2_Marshal_inj: "G2_Marshal B x = G2_Marshal B x' \<Longrightarrow> x = x'"
    and GT_Marshal_inj: "GT_Marshal B y = GT_Marshal B y' \<Longrightarrow> y = y'"
  using assms unfolding bn256_laws_def by blast+

lemma Mod_Order: "bn256_laws B \<Longrightarrow> Mod k (Order B) = k mod Order B"
  using order_gt_1 [of B] by (simp add: Mod_def big_Mod_def)

lemma base_Mod:
  assumes "bn256_laws B"
  shows "G2_ScalarBaseMult B (Mod k (Order B)) = G2_ScalarBaseMult B k"
  by (simp add: Mod_Order [OF assms] G2_base [OF assms] m_mod [OF G2_module [OF assms]])

lemma smul_Mod:
  assumes "bn256_laws B"
  shows "G2_ScalarMult B y (Mod k (Order B)) = G2_ScalarMult B y k"
  by (simp add: Mod_Order [OF assms] m_mod [OF G2_module [OF assms]])

lemma invert_smul:
  assumes "bn256_laws B"
  shows "GT_Invert B (GT_ScalarMult B y k) = GT_ScalarMult B y (- k)"
  by (simp add: GT_invert [OF assms] m_smul [OF GT_module [OF assms]])

text \<open>Under the laws the loops of Verify compute the two checks of the specification.\<close>

lemma Verify_checks:
  assumes laws: "bn256_laws B" and shape: "proof_shape pr p"
  shows "Verify B pr p pk
         = Inr (consistency_check B pr p \<and> (\<forall>i<nat (l p). digit_check B pr pk i))"
  by (simp add: Verify_eq [OF shape] consistency_check_def recomputed_D_def digit_check_def
        recomputed_a_def base_Mod [OF laws] invert_smul [OF laws] Multiply_def)

lemma recomputed_D_sum:
  assumes laws: "bn256_laws B"
  shows "recomputed_D B pr p
         = G2_Add B
             (G2_Add B (G2_ScalarMult B (C pr) (c pr)) (G2_ScalarMult B (H p) (zr pr)))
             (G2_ScalarMult B (G2 B) (\<Sum>i<nat (l p). zsig pr ! i * u p ^ i))"
  by (simp add: recomputed_D_def G2_base [OF laws] m_foldl_sum [OF G2_module [OF laws]])

section \<open>The proof that Prove returns passes both checks\<close>

lemma m_consistency:
  assumes M: "module_laws q add smul"
    and zr: "(r * ch + z) mod q = m0 mod q"
    and zs: "(x * ch + Z) mod q = S mod q"
  shows "add (add (smul (add (smul g x) (smul h r)) ch) (smul h z)) (smul g Z)
         = add (smul h m0) (smul g S)"
proof -
  note ac = m_assoc [OF M] m_comm [OF M] m_left_comm [OF M]
  have "add (add (smul (add (smul g x) (smul h r)) ch) (smul h z)) (smul g Z)
        = add (add (smul h (r * ch)) (smul h z)) (add (smul g (x * ch)) (smul g Z))"
    by (simp add: m_addsmul [OF M] m_smul [OF M] ac)
  also have "\<dots> = add (smul h (r * ch + z)) (smul g (x * ch + Z))"
    by (simp add: m_sadd [OF M])
  also have "\<dots> = add (smul h m0) (smul g S)"
    using m_cong [OF M zr] m_cong [OF M zs] by simp
  finally show ?thesis .
qed

lemma honest_proof_fields:
  "V (honest_proof B p src A decx x r)
     = map (\<lambda>i. G2_ScalarMult B (A i) (drawn_v src i)) [0..<nat (l p)]"
  "length (a (honest_proof B p src A decx x r)) = nat (l p)"
  "length (zsig (honest_proof B p src A decx x r)) = nat (l p)"
  "length (zv (honest_proof B p src A decx x r)) = nat (l p)"
  "m (honest_proof B p src A decx x r) = drawn_m src"
  "s (honest_proof B p src A decx x r) = map (drawn_s src) [0..<nat (l p)]"
  "t (honest_proof B p src A decx x r) = map (drawn_t src) [0..<nat (l p)]"
  "C (honest_proof B p src A decx x r) = Commit B x r p"
  by (simp_all add: honest_proof_def loop1_vars_def Let_def)

lemma honest_proof_shape: "proof_shape (honest_proof B p src A decx x r) p"
  by (simp add: proof_shape_def honest_proof_fields)

lemma honest_consistency:
  assumes laws: "bn256_laws B"
    and x: "x = (\<Sum>i<nat (l p). decx ! i * u p ^ i)"
  shows "recomputed_D B (honest_proof B p src A decx x r) p
         = D (honest_proof B p src A decx x r)"
proof -
  let ?pr = "honest_proof B p src A decx x r"
  let ?q = "Order B"
  let ?n = "nat (l p)"
  let ?S = "\<Sum>i<?n. drawn_s src i * u p ^ i"
  note M = G2_module [OF laws]
  have D: "D ?pr = G2_Add B (G2_ScalarMult B (H p) (drawn_m src)) (G2_ScalarMult B (G2 B) ?S)"
    by (simp add: honest_proof_def loop1_vars_def Let_def G2_infinity [OF laws]
          base_Mod [OF laws] Multiply_def)
       (simp add: G2_base [OF laws] m_foldl_sum [OF M])
  have zr: "zr ?pr = (drawn_m src - r * c ?pr) mod ?q"
    by (simp add: honest_proof_def Let_def Mod_Order [OF laws] Sub_def Multiply_def)
  have zsig: "zsig ?pr ! i = (drawn_s src i - decx ! i * c ?pr) mod ?q" if "i < ?n" for i
    using that by (simp add: honest_proof_def Let_def Mod_Order [OF laws] Sub_def Multiply_def)
  have C: "C ?pr = G2_Add B (G2_ScalarMult B (G2 B) x) (G2_ScalarMult B (H p) r)"
    by (simp add: honest_proof_fields Commit_def G2_base [OF laws])
  have c1: "(r * c ?pr + zr ?pr) mod ?q = drawn_m src mod ?q"
    by (simp add: zr mod_simps)
  have c2: "(x * c ?pr + (\<Sum>i<?n. zsig ?pr ! i * u p ^ i)) mod ?q = ?S mod ?q"
  proof -
    have "(\<Sum>i<?n. zsig ?pr ! i * u p ^ i)
          = (\<Sum>i<?n. ((drawn_s src i - decx ! i * c ?pr) mod ?q) * u p ^ i)"
      by (rule sum.cong) (simp_all add: zsig)
    then show ?thesis
      using responses_congruence [OF x, of "c ?pr" "drawn_s src" ?q] by simp
  qed
  show ?thesis
    unfolding recomputed_D_sum [OF laws] D C
    by (rule m_consistency [OF M c1 c2])
qed

lemma honest_digit:
  assumes laws: "bn256_laws B"
    and i: "i < nat (l p)"
    and sig: "signature_verifies B pk (decx ! i) (A i)"
  shows "recomputed_a B (honest_proof B p src A decx x r) pk i
         = a (honest_proof B p src A decx x r) ! i"
proof -
  let ?pr = "honest_proof B p src A decx x r"
  let ?q = "Order B"
  note M = GT_module [OF laws]
  let ?Y = "bn256_Pair B pk (A i)"
  let ?P = "bn256_Pair B (G1 B) (A i)"
  have V: "V ?pr ! i = G2_ScalarMult B (A i) (drawn_v src i)"
    using i by (simp add: honest_proof_fields)
  have a: "a ?pr ! i
           = GT_Add B
               (GT_ScalarMult B (GT_ScalarMult B (GT_ScalarMult B ?P (drawn_v src i)) (drawn_s src i)) (- 1))
               (GT_ScalarMult B (E B) (drawn_t src i))"
    using i by (simp add: honest_proof_def loop1_vars_def Let_def GT_invert [OF laws]
                  pair_linear [OF laws])
  have zs: "zsig ?pr ! i = (drawn_s src i - decx ! i * c ?pr) mod ?q"
    using i by (simp add: honest_proof_def Let_def Mod_Order [OF laws] Sub_def Multiply_def)
  have zt: "zv ?pr ! i = (drawn_t src i - drawn_v src i * c ?pr) mod ?q"
    using i by (simp add: honest_proof_def Let_def Mod_Order [OF laws] Sub_def Multiply_def)
  have sg: "GT_Add B ?Y (GT_ScalarMult B ?P (decx ! i)) = E B"
    using sig by (simp add: signature_verifies_def)
  have "recomputed_a B ?pr pk i
        = GT_Add B
            (GT_Add B (GT_ScalarMult B (GT_ScalarMult B ?Y (drawn_v src i)) (c ?pr))
               (GT_ScalarMult B
                  (GT_ScalarMult B (GT_ScalarMult B ?P (drawn_v src i)) (zsig ?pr ! i)) (- 1)))
            (GT_ScalarMult B (E B) (zv ?pr ! i))"
    by (simp add: recomputed_a_def V pair_linear [OF laws] m_smul [OF M])
  also have "\<dots> = a ?pr ! i"
    unfolding a by (rule m_digit_identity [OF M sg zs zt])
  finally show ?thesis .
qed

lemma honest_proof_verifies:
  assumes laws: "bn256_laws B"
    and x: "x = (\<Sum>i<nat (l p). decx ! i * u p ^ i)"
    and sigs: "\<forall>i<nat (l p). signature_verifies B pk (decx ! i) (A i)"
  shows "Verify B (honest_proof B p src A decx x r) p pk = Inr True"
  using sigs
  by (simp add: Verify_checks [OF laws honest_proof_shape] consistency_check_def
        honest_consistency [OF laws x] digit_check_def honest_digit [OF laws])

section \<open>When Prove returns a proof\<close>

lemma Prove_total:
  assumes U: "1 \<le> u p" and L: "0 \<le> l p"
    and sigs: "\<forall>d. 0 \<le> d \<and> d < u p \<longrightarrow> signatures p (FormatInt d) = Some (f d)"
    and src: "1 + 3 * nat (l p) \<le> length src"
  shows "Prove B src x r p
         = Inr (honest_proof B p src (\<lambda>i. f (digits x (u p) (nat (l p)) ! i))
                  (digits x (u p) (nat (l p))) x r)"
proof -
  let ?ds = "digits x (u p) (nat (l p))"
  have dec: "Decompose x (u p) (l p) = Inr ?ds"
    using U L by (simp add: Decompose_digits)
  have "\<forall>i<nat (l p). signatures p (FormatInt (?ds ! i)) = Some (f (?ds ! i))"
  proof (intro allI impI)
    fix i assume "i < nat (l p)"
    then have "?ds ! i \<in> set ?ds" by (simp add: length_digits)
    then have "0 \<le> ?ds ! i \<and> ?ds ! i < u p" using U digits_range by blast
    then show "signatures p (FormatInt (?ds ! i)) = Some (f (?ds ! i))"
      using sigs by blast
  qed
  then show ?thesis
    using src by (intro Prove_eq [OF dec]) (simp_all add: length_digits)
qed

lemma Setup_Prove_honest:
  assumes signs: "signs_digits B keys U"
    and U: "1 \<le> U" and L: "0 \<le> L" and src: "1 + 3 * nat L \<le> length src"
  shows "\<exists>A. Prove B src x r (setup_params B keys U L)
               = Inr (honest_proof B (setup_params B keys U L) src A (digits x U (nat L)) x r)
            \<and> (\<forall>i<nat L. signature_verifies B (pubk keys) (digits x U (nat L) ! i) (A i))"
proof -
  let ?p = "setup_params B keys U L"
  let ?ds = "digits x U (nat L)"
  obtain f where f: "\<And>d. 0 \<le> d \<Longrightarrow> d < U \<Longrightarrow>
      sign B d (privk keys) = Some (f d) \<and> signature_verifies B (pubk keys) d (f d)"
    using signs unfolding signs_digits_def by metis
  have "\<forall>d. 0 \<le> d \<and> d < u ?p \<longrightarrow> signatures ?p (FormatInt d) = Some (f d)"
    using f by (simp add: setup_params_lookup setup_params_fields(1))
  then have "Prove B src x r ?p
             = Inr (honest_proof B ?p src (\<lambda>i. f (digits x (u ?p) (nat (l ?p)) ! i))
                      (digits x (u ?p) (nat (l ?p))) x r)"
    using U L src by (intro Prove_total) (simp_all add: setup_params_fields)
  moreover have "\<forall>i<nat L. signature_verifies B (pubk keys) (?ds ! i) (f (?ds ! i))"
  proof (intro allI impI)
    fix i assume "i < nat L"
    then have "?ds ! i \<in> set ?ds" by (simp add: length_digits)
    then have "0 \<le> ?ds ! i \<and> ?ds ! i < U" using U digits_range by blast
    then show "signature_verifies B (pubk keys) (?ds ! i) (f (?ds ! i))"
      using f by blast
  qed
  ultimately show ?thesis
    by (simp add: setup_params_fields) blast
qed

lemma digits_value:
  assumes "1 \<le> U" and "0 \<le> x" and "x < U ^ n"
  shows "x = (\<Sum>i<n. digits x U n ! i * U ^ i)"
  using positional_sum_digits [OF assms(1), of x n] assms(2,3)
  by (simp add: positional_sum_def length_digits)

lemma Setup_Prove_Verify:
  assumes laws: "bn256_laws B" and signs: "signs_digits B keys U"
    and U: "1 \<le> U" and L: "0 \<le> L" and x: "0 \<le> x" "x < U ^ nat L"
    and src: "1 + 3 * nat L \<le> length src"
  shows "\<exists>A. Prove B src x r (setup_params B keys U L)
               = Inr (honest_proof B (setup_params B keys U L) src A (digits x U (nat L)) x r)
            \<and> Verify B (honest_proof B (setup_params B keys U L) src A (digits x U (nat L)) x r)
                 (setup_params B keys U L) (pubk keys) = Inr True"
proof -
  let ?p = "setup_params B keys U L"
  obtain A where A: "Prove B src x r ?p = Inr (honest_proof B ?p src A (digits x U (nat L)) x r)"
      "\<forall>i<nat L. signature_verifies B (pubk keys) (digits x U (nat L) ! i) (A i)"
    using Setup_Prove_honest [OF signs U L src] by blast
  have "Verify B (honest_proof B ?p src A (digits x U (nat L)) x r) ?p (pubk keys) = Inr True"
    using A(2) digits_value [OF U x]
    by (intro honest_proof_verifies [OF laws]) (simp_all add: setup_params_fields)
  with A(1) show ?thesis by blast
qed

text \<open>
  C3. Completeness: for every \<open>x\<close> in \<open>[0, U^L)\<close>, every blinding \<open>r\<close> and every
  outcome of the random source, Prove with the parameters of Setup returns a proof, and
  Verify accepts it under the same parameters and the public key of the authority. The
  library obeys its laws, the authority signed every digit, and the random source
  delivers the \<open>1 + 3 L\<close> scalars that Prove reads.
\<close>

theorem Prove_Verify_complete:
  assumes "bn256_laws B" and "signs_digits B keys U"
    and "1 \<le> U" and "0 \<le> L" and "0 \<le> x" and "x < U ^ nat L"
    and "1 + 3 * nat L \<le> length src"
  shows "\<exists>p pr. Setup B keys U L = Inr p \<and> Prove B src x r p = Inr pr
           \<and> Verify B pr p (pubk keys) = Inr True"
  using Setup_Prove_Verify [OF assms] Setup_eq by blast

text \<open>
  C4. Verify returns true if and only if the consistency check holds (the recomputed
  \<open>D'\<close> serializes to the bytes of \<open>D\<close>) and the per-digit check holds for every index
  below \<open>l\<close>; when one of them fails it returns false. The proof has an entry for
  every digit.
\<close>

theorem Verify_accepts_iff:
  assumes "bn256_laws B" and "proof_shape pr p"
  shows "(Verify B pr p pk = Inr True \<longleftrightarrow>
            consistency_check B pr p \<and> (\<forall>i \<in> {0..<nat (l p)}. digit_check B pr pk i))
       \<and> (Verify B pr p pk = Inr False \<longleftrightarrow>
            \<not> (consistency_check B pr p \<and> (\<forall>i \<in> {0..<nat (l p)}. digit_check B pr pk i)))"
  by (auto simp: Verify_checks [OF assms])

section \<open>Tampering with the response zr\<close>

lemma tampered_zr:
  assumes laws: "bn256_laws B"
    and h: "h_scalar mod Order B \<noteq> 0"
    and Hp: "H p = G2_ScalarBaseMult B h_scalar"
    and ok: "recomputed_D B pr p = D pr"
  shows "\<not> consistency_check B (pr\<lparr>zr := (zr pr + 1) mod Order B\<rparr>) p"
proof
  let ?pr' = "pr\<lparr>zr := (zr pr + 1) mod Order B\<rparr>"
  note M = G2_module [OF laws]
  note ac = m_assoc [OF M] m_comm [OF M] m_left_comm [OF M]
  assume "consistency_check B ?pr' p"
  then have eq: "recomputed_D B ?pr' p = D pr"
    using G2_Marshal_inj [OF laws] by (simp add: consistency_check_def)
  have "G2_ScalarMult B (H p) ((zr pr + 1) mod Order B)
        = G2_Add B (G2_ScalarMult B (H p) (zr pr)) (H p)"
    by (simp add: m_mod [OF M] m_sadd [OF M] m_one [OF M])
  then have "recomputed_D B ?pr' p = G2_Add B (recomputed_D B pr p) (H p)"
    by (simp add: recomputed_D_sum [OF laws] ac)
  with eq ok have "G2_Add B (D pr) (H p) = D pr" by simp
  also have "D pr = G2_Add B (D pr) (G2_ScalarMult B (H p) 0)"
    by (simp add: m_zero [OF M])
  finally have "H p = G2_ScalarMult B (H p) 0"
    by (rule m_cancel [OF M])
  also have "\<dots> = G2_ScalarBaseMult B 0"
    by (simp add: Hp G2_base [OF laws] m_smul [OF M])
  finally have "h_scalar mod Order B = 0 mod Order B"
    unfolding Hp by (rule G2_base_inj [OF laws])
  with h show False by simp
qed

text \<open>
  C8. A proof that Prove returns for an \<open>x\<close> in \<open>[0, U^L)\<close> is accepted, and it is
  rejected once its response \<open>zr\<close> is replaced by \<open>(zr + 1) mod Order\<close>, every other
  field unchanged. The scalar of the generator \<open>H\<close> of Setup is not a multiple of the
  order.
\<close>

theorem tampered_zr_rejected:
  assumes "bn256_laws B" and "signs_digits B keys U"
    and "1 \<le> U" and "0 \<le> L" and "0 \<le> x" and "x < U ^ nat L"
    and "1 + 3 * nat L \<le> length src"
    and "h_scalar mod Order B \<noteq> 0"
  shows "\<exists>p pr. Setup B keys U L = Inr p \<and> Prove B src x r p = Inr pr
           \<and> Verify B pr p (pubk keys) = Inr True
           \<and> Verify B (pr\<lparr>zr := (zr pr + 1) mod Order B\<rparr>) p (pubk keys) = Inr False"
proof -
  let ?p = "setup_params B keys U L"
  obtain A where A: "Prove B src x r ?p = Inr (honest_proof B ?p src A (digits x U (nat L)) x r)"
      "Verify B (honest_proof B ?p src A (digits x U (nat L)) x r) ?p (pubk keys) = Inr True"
    using Setup_Prove_Verify [OF assms(1-7)] by blast
  let ?pr = "honest_proof B ?p src A (digits x U (nat L)) x r"
  let ?pr' = "?pr\<lparr>zr := (zr ?pr + 1) mod Order B\<rparr>"
  have ok: "recomputed_D B ?pr ?p = D ?pr"
    using digits_value [OF assms(3,5,6)]
    by (intro honest_consistency [OF assms(1)]) (simp add: setup_params_fields)
  have "\<not> consistency_check B ?pr' ?p"
    by (rule tampered_zr [OF assms(1,8) _ ok]) (simp add: setup_params_fields)
  moreover have "proof_shape ?pr' ?p"
    using honest_proof_shape [of B ?p src A "digits x U (nat L)" x r]
    by (simp add: proof_shape_def)
  ultimately have "Verify B ?pr' ?p (pubk keys) = Inr False"
    by (simp add: Verify_checks [OF assms(1)])
  with A show ?thesis
    using Setup_eq by blast
qed

section \<open>What a returned proof holds\<close>

lemma for_loop_rule:
  assumes "for_loop i n body st = Inr st'" and "i \<le> n" and "P i st"
    and step: "\<And>k st st'. i \<le> k \<Longrightarrow> k < n \<Longrightarrow> P k st \<Longrightarrow> body k st = Inr st' \<Longrightarrow> P (k + 1) st'"
  shows "P n st'"
  using assms(1-3) step
proof (induction "nat (n - i)" arbitrary: i st)
  case 0
  then have "i = n" by simp
  with "0.prems" show ?case by (simp add: for_loop_done)
next
  case (Suc j)
  then have lt: "i < n" by simp
  from Suc.prems(1) lt obtain st1 where b: "body i st = Inr st1"
    and rest: "for_loop (i + 1) n body st1 = Inr st'"
    by (auto simp: for_loop_step split: sum.splits)
  have P1: "P (i + 1) st1"
    using Suc.prems(4) [OF _ lt Suc.prems(3) b] by simp
  show ?case
  proof (rule Suc.hyps(1) [OF _ rest _ P1])
    show "j = nat (n - (i + 1))" using Suc.hyps(2) by simp
    show "i + 1 \<le> n" using lt by simp
    show "\<And>k st st'. i + 1 \<le> k \<Longrightarrow> k < n \<Longrightarrow> P k st \<Longrightarrow> body k st = Inr st' \<Longrightarrow> P (k + 1) st'"
      using Suc.prems(4) by simp
  qed
qed

lemma rand_Int_Some:
  assumes "rand_Int (drop j src) = Some (k, rest)"
  shows "j < length src \<and> src ! j = k \<and> rest = drop (Suc j) src"
proof -
  from assms have d: "drop j src = k # rest"
    by (auto simp: rand_Int_def split: list.splits)
  then have j: "j < length src"
    by (metis drop_all linorder_not_less list.distinct(1))
  with d show ?thesis
    by (metis Cons_nth_drop_Suc list.inject)
qed

lemma Prove_body1_keeps:
  assumes b: "Prove_body1 B p decx (int k) st = Inr st'"
    and r: "loc_rand st = drop (1 + 3 * k) src"
    and ss: "loc_s st = map (drawn_s src) [0..<k]"
    and ts: "loc_t st = map (drawn_t src) [0..<k]"
  shows "loc_rand st' = drop (1 + 3 * Suc k) src
       \<and> loc_s st' = map (drawn_s src) [0..<Suc k]
       \<and> loc_t st' = map (drawn_t src) [0..<Suc k]"
proof -
  from b obtain vi src1 si src2 ti src3 where
    r1: "rand_Int (loc_rand st) = Some (vi, src1)"
    and r2: "rand_Int src1 = Some (si, src2)"
    and r3: "rand_Int src2 = Some (ti, src3)"
    and st': "loc_rand st' = src3" "loc_s st' = loc_s st @ [si]" "loc_t st' = loc_t st @ [ti]"
    by (auto simp: Prove_body1_def Let_def split: option.splits if_splits)
  from r1 r have 1: "src1 = drop (Suc (1 + 3 * k)) src"
    using rand_Int_Some [of "1 + 3 * k" src vi src1] by simp
  from r2 1 have 2: "si = src ! (Suc (1 + 3 * k))" "src2 = drop (Suc (Suc (1 + 3 * k))) src"
    using rand_Int_Some [of "Suc (1 + 3 * k)" src si src2] by simp_all
  from r3 2 have 3: "ti = src ! (Suc (Suc (1 + 3 * k)))"
      "src3 = drop (Suc (Suc (Suc (1 + 3 * k)))) src"
    using rand_Int_Some [of "Suc (Suc (1 + 3 * k))" src ti src3] by simp_all
  have "si = drawn_s src k" "ti = drawn_t src k"
    using 2 3 by (simp_all add: drawn_s_def drawn_t_def eval_nat_numeral)
  then show ?thesis
    using st' 3 ss ts by (simp add: eval_nat_numeral)
qed

lemma Prove_fields:
  assumes "Prove B src x r p = Inr pr"
  shows "m pr = drawn_m src"
    and "s pr = map (drawn_s src) [0..<nat (l p)]"
    and "t pr = map (drawn_t src) [0..<nat (l p)]"
    and "c pr = Mod (Hash B (a pr) (D pr)) (Order B)"
proof -
  from assms obtain decx m0 src0 st zs where
    dec: "Decompose x (u p) (l p) = Inr decx"
    and r0: "rand_Int src = Some (m0, src0)"
    and loop: "for_loop 0 (l p) (Prove_body1 B p decx)
                 \<lparr>loc_rand = src0, loc_v = [], loc_D = G2_ScalarMult B (H p) m0,
                  loc_V = [], loc_s = [], loc_t = [], loc_a = []\<rparr> = Inr st"
    and pr: "pr = \<lparr>V = loc_V st, D = G2_Add B (G2_SetInfinity B) (loc_D st),
                  C = Commit B x r p, a = loc_a st, s = loc_s st, t = loc_t st,
                  zsig = fst zs, zv = snd zs,
                  c = Mod (Hash B (loc_a st) (G2_Add B (G2_SetInfinity B) (loc_D st))) (Order B),
                  m = m0,
                  zr = Mod (Sub m0 (Multiply r
                         (Mod (Hash B (loc_a st) (G2_Add B (G2_SetInfinity B) (loc_D st)))
                            (Order B)))) (Order B)\<rparr>"
    by (auto simp: Prove_def Let_def split: sum.splits option.splits)
  have L: "0 \<le> l p"
    using dec by (auto simp: Decompose_def split: if_splits)
  have s0: "src = m0 # src0"
    using r0 by (auto simp: rand_Int_def split: list.splits)
  let ?P = "\<lambda>k st. loc_rand st = drop (1 + 3 * nat k) src
              \<and> loc_s st = map (drawn_s src) [0..<nat k]
              \<and> loc_t st = map (drawn_t src) [0..<nat k]"
  have "?P (l p) st"
  proof (rule for_loop_rule [OF loop L, where P = ?P])
    show "?P 0 \<lparr>loc_rand = src0, loc_v = [], loc_D = G2_ScalarMult B (H p) m0,
                 loc_V = [], loc_s = [], loc_t = [], loc_a = []\<rparr>"
      by (simp add: s0)
  next
    fix k :: int and st1 st2
    assume k: "0 \<le> k" "k < l p" and P: "?P k st1"
      and b: "Prove_body1 B p decx k st1 = Inr st2"
    have S: "nat (k + 1) = Suc (nat k)" using k by simp
    have "Prove_body1 B p decx (int (nat k)) st1 = Inr st2" using b k by simp
    from Prove_body1_keeps [OF this] P show "?P (k + 1) st2"
      unfolding S by blast
  qed
  then show "s pr = map (drawn_s src) [0..<nat (l p)]"
    and "t pr = map (drawn_t src) [0..<nat (l p)]"
    by (simp_all add: pr)
  show "m pr = drawn_m src" by (simp add: pr s0 drawn_m_def)
  show "c pr = Mod (Hash B (a pr) (D pr)) (Order B)" by (simp add: pr)
qed

text \<open>
  Whenever Prove returns a proof, its field \<open>m\<close> is the blinding scalar that Prove
  drew, and its fields \<open>s\<close> and \<open>t\<close> are the per-digit random scalars \<open>s_i\<close> and
  \<open>t_i\<close>. With \<open>c\<close> and \<open>zsig_i = s_i - d_i c\<close>, which the proof holds as well, they
  determine the digits.
\<close>

theorem Prove_keeps_randomness:
  assumes "Prove B src x r p = Inr pr"
  shows "m pr = drawn_m src
       \<and> s pr = map (drawn_s src) [0..<nat (l p)]
       \<and> t pr = map (drawn_t src) [0..<nat (l p)]"
  using Prove_fields(1-3) [OF assms] by simp

section \<open>Hash\<close>

lemma length_step256: "length hs = 8 \<Longrightarrow> length (step256 hs k w) = 8"
proof -
  assume "length hs = 8"
  then obtain h0 h1 h2 h3 h4 h5 h6 h7 where "hs = [h0, h1, h2, h3, h4, h5, h6, h7]"
    by (auto simp: length_Suc_conv eval_nat_numeral)
  then show ?thesis by simp
qed

lemma length_rounds256: "length hs = 8 \<Longrightarrow> length (rounds256 ks w hs) = 8"
  by (induction ks w hs rule: rounds256.induct) (simp_all add: length_step256)

lemma length_blocks256: "length hs = 8 \<Longrightarrow> length (blocks256 hs ws) = 8"
  by (induction hs ws rule: blocks256.induct) (simp_all add: length_rounds256)

lemma length_concat_word_bytes: "length (concat (map word_bytes ws)) = 4 * length ws"
  by (induction ws) (simp_all add: word_bytes_def)

lemma length_sha256: "length (sha256 bs) = 32"
  by (simp add: sha256_def length_concat_word_bytes length_blocks256 H256_def)

text \<open>
  C6, as the code has it. Hash returns the 32-byte digest read as an integer and does
  not reduce it; Prove reduces it, so that the challenge \<open>c\<close> of a returned proof is
  the value of Hash on the fields \<open>a\<close> and \<open>D\<close> modulo the order, and lies below the
  order.
\<close>

theorem challenge_is_Hash_reduced:
  assumes "Prove B src x r p = Inr pr" and "0 < Order B"
  shows "c pr = Hash B (a pr) (D pr) mod Order B \<and> 0 \<le> c pr \<and> c pr < Order B
       \<and> (\<exists>dg. length dg = 32 \<and> Hash B (a pr) (D pr) = FromByteArray B dg)"
proof -
  have "c pr = Hash B (a pr) (D pr) mod Order B"
    using Prove_fields(4) [OF assms(1)] assms(2) by (simp add: Mod_def big_Mod_def)
  moreover have "\<exists>dg. length dg = 32 \<and> Hash B (a pr) (D pr) = FromByteArray B dg"
    unfolding Hash_def using length_sha256 by blast
  ultimately show ?thesis
    using assms(2) by simp
qed

text \<open>
  C7. Hash is deterministic: two calls whose first-round values and aggregate element
  serialize to the same strings return the same scalar; in particular two calls on
  identical arguments do.
\<close>

theorem Hash_deterministic:
  assumes "map (GT_String B) gts = map (GT_String B) gts'"
    and "G2_String B d = G2_String B d'"
  shows "Hash B gts d = Hash B gts' d'"
proof -
  have "map (\<lambda>g. str_bytes (GT_String B g)) gts = map str_bytes (map (GT_String B) gts)"
    by simp
  also have "\<dots> = map str_bytes (map (GT_String B) gts')"
    by (simp only: assms(1))
  also have "\<dots> = map (\<lambda>g. str_bytes (GT_String B g)) gts'"
    by simp
  finally show ?thesis
    by (simp add: Hash_def assms(2))
qed

section \<open>Setup and Prove on a non-positive base or length\<close>

lemma Decompose_zero_base: "0 < L \<Longrightarrow> Decompose x 0 L = Inl DivisionByZero"
  by (simp add: Decompose_def Decompose_loop.simps [of 0 L _ x 0])

lemma Decompose_negative_length: "L < 0 \<Longrightarrow> Decompose x U L = Inl MakesliceLenOutOfRange"
  by (simp add: Decompose_def)

text \<open>
  C9, as the code has it. Setup never aborts: for every \<open>U\<close> and \<open>L\<close> it returns
  parameters that hold \<open>U\<close> and \<open>L\<close> unchanged, with an empty signature table when
  \<open>U \<le> 0\<close>. Prove with these parameters panics when \<open>L < 0\<close> (the slice allocation in
  Decompose), when \<open>L > 0\<close> and \<open>U = 0\<close> (division by zero in Decompose) and when
  \<open>L > 0\<close> and \<open>U < 0\<close> (the signature looked up is nil); for \<open>L = 0\<close> it returns a
  proof.
\<close>

theorem Setup_never_aborts:
  assumes "U \<le> 0 \<or> L \<le> 0"
  shows "\<exists>p. Setup B keys U L = Inr p \<and> u p = U \<and> l p = L
           \<and> (U \<le> 0 \<longrightarrow> signatures p = (\<lambda>k. None))
           \<and> (L < 0 \<longrightarrow> Prove B src x r p = Inl MakesliceLenOutOfRange)
           \<and> (0 < L \<and> U = 0 \<longrightarrow> Prove B src x r p = Inl DivisionByZero)
           \<and> (0 < L \<and> U < 0 \<longrightarrow> Prove B src x r p = Inl NilDereference)
           \<and> (L = 0 \<and> src \<noteq> [] \<longrightarrow> \<not> isl (Prove B src x r p))"
proof -
  let ?p = "setup_params B keys U L"
  have empty: "signatures ?p = (\<lambda>k. None)" if "U \<le> 0"
    using that by (simp add: setup_params_fields)
  have neg: "Prove B src x r ?p = Inl MakesliceLenOutOfRange" if "L < 0"
    using that by (simp add: Prove_def setup_params_fields Decompose_negative_length)
  have zero: "Prove B src x r ?p = Inl DivisionByZero" if "0 < L" "U = 0"
    using that by (simp add: Prove_def setup_params_fields Decompose_zero_base)
  have nil: "Prove B src x r ?p = Inl NilDereference" if "0 < L" "U < 0"
  proof (cases "rand_Int src")
    case None
    with that show ?thesis
      by (simp add: Prove_def setup_params_fields Decompose_digits)
  next
    case (Some ms)
    obtain m0 src0 where ms: "ms = (m0, src0)" by (cases ms)
    let ?ds = "digits x U (nat L)"
    let ?st = "\<lparr>loc_rand = src0, loc_v = [], loc_D = G2_ScalarMult B (H ?p) m0,
                loc_V = [], loc_s = [], loc_t = [], loc_a = []\<rparr>"
    have "Prove_body1 B ?p ?ds 0 ?st = Inl NilDereference"
      using that by (simp add: Prove_body1_def empty length_digits split: option.splits)
    then have "for_loop 0 L (Prove_body1 B ?p ?ds) ?st = Inl NilDereference"
      using that(1) by (rule for_loop_fails [rotated])
    with that Some ms show ?thesis
      by (simp add: Prove_def setup_params_fields Decompose_digits)
  qed
  have none: "\<not> isl (Prove B src x r ?p)" if L0: "L = 0" and ne: "src \<noteq> []"
  proof -
    have "Decompose x U 0 = Inr []"
      by (simp add: Decompose_def Decompose_loop.simps [of U 0 _ x 0])
    moreover obtain m0 src0 where "rand_Int src = Some (m0, src0)"
      using ne by (cases src) (auto simp: rand_Int_def)
    ultimately show ?thesis
      using L0 by (simp add: Prove_def setup_params_fields for_loop_done Let_def)
  qed
  show ?thesis
    using empty neg zero nil none Setup_eq [of B keys U L]
    by (intro exI [of _ ?p]) (simp add: setup_params_fields)
qed

section \<open>The ideal library obeys the laws\<close>

lemma Zq_of_int_mod: "(of_int (k mod bn_order) :: Zq) = of_int k"
  by (simp add: bn_order_def bit1.of_int_eq)

lemma Zq_of_int_eq: "(of_int j :: Zq) = of_int k \<Longrightarrow> j mod bn_order = k mod bn_order"
  by (simp add: bn_order_def bit1.of_int_eq Abs_bit1_inject)

lemma Zq_Rep_range: "0 \<le> Rep_bit1 (x :: Zq) \<and> Rep_bit1 x < 256 ^ 32"
proof -
  have card: "int CARD(Zq) = bn_order"
    by (simp add: bn_order_def)
  have "Rep_bit1 x \<in> {0..<int CARD(Zq)}"
    using Rep_bit1 [of x] by simp
  then have r: "0 \<le> Rep_bit1 x" "Rep_bit1 x < bn_order"
    unfolding card by simp_all
  have "bn_order < 256 ^ 32"
    by (simp add: bn_order_def)
  with r(2) have "Rep_bit1 x < 256 ^ 32"
    by (rule order_less_trans)
  with r(1) show ?thesis ..
qed

lemma byte_uint: "0 \<le> i \<Longrightarrow> i < 256 \<Longrightarrow> uint (of_int i :: byte) = i"
  by (simp add: uint_word_of_int)
lemma byte_of_int_inj:
  assumes "0 \<le> i" "i < 256" "0 \<le> j" "j < 256" "(of_int i :: byte) = of_int j"
  shows "i = j"
proof -
  have "i = uint (of_int i :: byte)"
    using assms(1,2) by (rule byte_uint [symmetric])
  also have "\<dots> = uint (of_int j :: byte)"
    by (simp only: assms(5))
  also have "\<dots> = j"
    using assms(3,4) by (rule byte_uint)
  finally show ?thesis .
qed

lemma map_byte_inj:
  assumes "map (of_int :: int \<Rightarrow> byte) xs = map of_int ys"
    and "\<forall>d \<in> set xs. 0 \<le> d \<and> d < 256" and "\<forall>d \<in> set ys. 0 \<le> d \<and> d < 256"
  shows "xs = ys"
  using assms
proof (induction xs arbitrary: ys)
  case Nil
  then show ?case by simp
next
  case (Cons x xs)
  then obtain y ys' where ys: "ys = y # ys'" by (cases ys) auto
  with Cons.prems have "x = y"
    using byte_of_int_inj [of x y] by simp
  moreover have "xs = ys'"
    using Cons.IH [of ys'] Cons.prems ys by simp
  ultimately show ?case by (simp add: ys)
qed

lemma Zq_Marshal_inj: "Zq_Marshal x = Zq_Marshal y \<Longrightarrow> x = y"
proof -
  assume eq: "Zq_Marshal x = Zq_Marshal y"
  let ?dx = "digits (Rep_bit1 x) 256 32" and ?dy = "digits (Rep_bit1 y) 256 32"
  have one: "(1 :: int) \<le> 256" by simp
  have r: "\<forall>d \<in> set (rev ?dx). 0 \<le> d \<and> d < 256" "\<forall>d \<in> set (rev ?dy). 0 \<le> d \<and> d < 256"
    using digits_range [OF one] unfolding set_rev by blast+
  from eq have "rev ?dx = rev ?dy"
    unfolding Zq_Marshal_def by (rule map_byte_inj [OF _ r])
  then have "?dx = ?dy" by (simp only: rev_is_rev_conv)
  then have "positional_sum 256 ?dx = positional_sum 256 ?dy" by (simp only:)
  then have m: "Rep_bit1 x mod 256 ^ 32 = Rep_bit1 y mod 256 ^ 32"
    unfolding positional_sum_digits [OF one] .
  have "Rep_bit1 x mod 256 ^ 32 = Rep_bit1 x" "Rep_bit1 y mod 256 ^ 32 = Rep_bit1 y"
    using Zq_Rep_range [of x] Zq_Rep_range [of y] by (simp_all only: mod_pos_pos_trivial)
  with m have "Rep_bit1 x = Rep_bit1 y" by (simp only:)
  then show "x = y" by (simp only: Rep_bit1_inject)
qed

lemma Zq_module: "module_laws bn_order (+) (\<lambda>(x :: Zq) k. x * of_int k)"
  unfolding module_laws_def
  by (simp add: algebra_simps Zq_of_int_mod)

lemma ideal_fields:
  "Order ideal = bn_order"
  "G1_ScalarBaseMult ideal = of_int"
  "G2_ScalarBaseMult ideal = of_int"
  "G2_ScalarMult ideal = (\<lambda>x k. x * of_int k)"
  "G2_Add ideal = (+)"
  "G2_SetInfinity ideal = 0"
  "G2_Marshal ideal = Zq_Marshal"
  "bn256_Pair ideal = (*)"
  "GT_ScalarMult ideal = (\<lambda>x k. x * of_int k)"
  "GT_Add ideal = (+)"
  "GT_Invert ideal = uminus"
  "GT_Marshal ideal = Zq_Marshal"
  by (simp_all add: ideal_def)

lemma ideal_laws: "bn256_laws ideal"
  unfolding bn256_laws_def ideal_fields G2_def
proof (intro conjI allI impI)
  show "1 < bn_order" by (simp add: bn_order_def)
  show "module_laws bn_order (+) (\<lambda>(x :: Zq) k. x * of_int k)"
    by (rule Zq_module)
  show "module_laws bn_order (+) (\<lambda>(x :: Zq) k. x * of_int k)"
    by (rule Zq_module)
  show "0 + x = x" for x :: Zq by simp
  show "(of_int k :: Zq) = of_int 1 * of_int k" for k by simp
  show "j mod bn_order = k mod bn_order" if "(of_int j :: Zq) = of_int k" for j k
    using that by (rule Zq_of_int_eq)
  show "- x = x * of_int (- 1)" for x :: Zq by simp
  show "g * (A * of_int k) = g * A * of_int k" for g A :: Zq and k
    by (simp add: mult.assoc)
  show "x = y" if "Zq_Marshal x = Zq_Marshal y" for x y
    using that by (rule Zq_Marshal_inj)
  show "x = y" if "Zq_Marshal x = Zq_Marshal y" for x y
    using that by (rule Zq_Marshal_inj)
qed

section \<open>The concrete parameters\<close>

lemma FormatInt_0_1: "FormatInt 0 = ''0''" "FormatInt 1 = ''1''"
  by (simp_all add: FormatInt_def dec_string.simps digit_char_def)

lemma ModInverse_1: "ModInverse 1 bn_order = Some 1"
  by (simp add: ModInverse_def bn_order_def inverse_loop.simps)

lemma ModInverse_2:
  "ModInverse 2 bn_order
   = Some 10944121435919637611123202872628637544274182200208017171849102093287904247809"
  by (simp add: ModInverse_def bn_order_def inverse_loop.simps)

lemma ideal_sign:
  "sign ideal 0 1 = Some 1"
  "sign ideal 1 1 = Some 10944121435919637611123202872628637544274182200208017171849102093287904247809"
  using ModInverse_1 ModInverse_2
  by (simp_all add: ideal_def Mod_def big_Mod_def bn_order_def)

lemma digit_below_2: "0 \<le> d \<Longrightarrow> d < 2 \<Longrightarrow> d = 0 \<or> d = (1 :: int)"
  by auto

lemma ideal_signs_digits: "signs_digits ideal keys0 2"
proof -
  have v0: "signature_verifies ideal 1 0 1"
    by (simp add: signature_verifies_def ideal_fields E_def G1_def G2_def)
  have v1: "signature_verifies ideal 1 1
              10944121435919637611123202872628637544274182200208017171849102093287904247809"
    by (simp add: signature_verifies_def ideal_fields E_def G1_def G2_def)
  show ?thesis
    unfolding signs_digits_def
    using ideal_sign v0 v1 digit_below_2 by (auto simp: keys0_def)
qed

lemma Setup_params0: "Setup ideal keys0 2 L = Inr (params0 2 L)"
proof -
  have "signed_upto ideal 1 (Suc (Suc 0))
        = (\<lambda>k. if k = ''0'' then Some 1
                else if k = ''1''
                then Some 10944121435919637611123202872628637544274182200208017171849102093287904247809
                else None)"
    using ideal_sign by (auto simp: fun_eq_iff FormatInt_0_1)
  then show ?thesis
    by (simp add: Setup_eq setup_params_def params0_def keys0_def numeral_2_eq_2 ideal_def)
qed

lemma params0_fields:
  "u (params0 U L) = U" "l (params0 U L) = L"
  by (simp_all add: params0_def)

lemma Prove_params0:
  assumes "0 \<le> L" and "1 + 3 * nat L \<le> length src"
  shows "\<not> isl (Prove ideal src x r (params0 2 L))"
proof -
  let ?f = "\<lambda>d :: int. if d = 0 then (1 :: Zq)
              else 10944121435919637611123202872628637544274182200208017171849102093287904247809"
  have s0: "signatures (params0 2 L) (FormatInt 0) = Some (?f 0)"
    and s1: "signatures (params0 2 L) (FormatInt 1) = Some (?f 1)"
    by (simp_all add: params0_def FormatInt_0_1)
  have "\<forall>d. 0 \<le> d \<and> d < u (params0 2 L)
          \<longrightarrow> signatures (params0 2 L) (FormatInt d) = Some (?f d)"
  proof (intro allI impI)
    fix d :: int
    assume "0 \<le> d \<and> d < u (params0 2 L)"
    then have "d = 0 \<or> d = 1"
      using digit_below_2 [of d] by (simp add: params0_fields)
    then show "signatures (params0 2 L) (FormatInt d) = Some (?f d)"
      using s0 s1 by (elim disjE) (simp_all only:)
  qed
  then show ?thesis
    using assms Prove_total [of "params0 2 L" ?f src ideal x r]
    by (simp add: params0_fields)
qed

section \<open>Concrete runs\<close>

lemma replicate_numeral: "replicate (numeral k) x = x # replicate (pred_numeral k) x"
  by (simp add: numeral_eq_Suc)

lemma G2_String_11: "G2_String ideal 11 = ''bn256.G2(11)''"
proof -
  have "Rep_bit1 (11 :: Zq) = 11"
    by (simp add: bit1.Rep_numeral)
  moreover have "dec_string 11 = ''11''"
    by (simp add: dec_string.simps [of 11] dec_string.simps [of "Suc 0"] digit_char_def)
  ultimately show ?thesis
    by (simp add: ideal_def Zq_String_def FormatInt_def)
qed

lemmas sha256_defs =
  sha256_def pad256_def str_bytes_def be64_def word_bytes_def replicate_numeral
  H256_def K256_def ssig0_def ssig1_def bsig0_def bsig1_def Ch_def Maj_def rotr_def
  shr_def add32_def not32_def

text \<open>The one-block and the two-block test vector of the standard.\<close>

lemma sha256_abc:
  "sha256 (str_bytes ''abc'')
   = [186, 120, 22, 191, 143, 1, 207, 234, 65, 65, 64, 222, 93, 174, 34, 35,
      176, 3, 97, 163, 150, 23, 122, 156, 180, 16, 255, 97, 242, 0, 21, 173]"
  by (simp add: sha256_defs)

lemma sha256_two_blocks:
  "sha256 (str_bytes ''abcdbcdecdefdefgefghfghighijhijkijkljklmklmnlmnomnopnopq'')
   = [36, 141, 106, 97, 210, 6, 56, 184, 229, 192, 38, 147, 12, 62, 96, 57,
      163, 60, 228, 89, 100, 255, 33, 103, 246, 236, 237, 212, 25, 219, 6, 193]"
  by (simp add: sha256_defs)

lemma sha256_G2_11:
  "sha256 (str_bytes ''bn256.G2(11)'')
   = [102, 15, 179, 56, 181, 6, 67, 121, 124, 150, 68, 14, 168, 155, 205, 108,
      89, 98, 250, 214, 222, 83, 94, 153, 94, 101, 13, 121, 47, 250, 116, 101]"
  by (simp add: sha256_defs)

lemma Hash_G2_11:
  "Hash ideal [] 11
   = 46163650202882037726654564822103305465701684686510848435838198140718215230565"
  by (simp add: Hash_def G2_String_11 sha256_G2_11) (simp add: ideal_def be_int_def)

text \<open>
  C6, counterexample. On no first-round values and the element \<open>11\<close> of the ideal
  library, whose serialization is \<^verbatim>\<open>bn256.G2(11)\<close>, Hash returns the digest
  \<^verbatim>\<open>660fb338...2ffa7465\<close> as an integer, which is not below the order.
\<close>

theorem Hash_not_reduced:
  "Hash ideal [] 11
     = 46163650202882037726654564822103305465701684686510848435838198140718215230565
   \<and> \<not> Hash ideal [] 11 < Order ideal"
  by (simp add: Hash_G2_11) (simp add: ideal_fields bn_order_def)

lemma source0_length: "length source0 = 25"
  by (simp add: source0_def)

lemma Prove_source0:
  "0 \<le> L \<Longrightarrow> L \<le> 8 \<Longrightarrow> \<exists>pr. Prove ideal source0 x r (params0 2 L) = Inr pr"
proof -
  assume "0 \<le> L" "L \<le> 8"
  then have "1 + 3 * nat L \<le> length source0"
    by (simp add: source0_length)
  with \<open>0 \<le> L\<close> have "\<not> isl (Prove ideal source0 x r (params0 2 L))"
    by (rule Prove_params0)
  then show ?thesis
    by (cases "Prove ideal source0 x r (params0 2 L)") simp_all
qed

lemma drawn_source0:
  "drawn_m source0 = 7"
  "map (drawn_s source0) [0..<nat 8] = [12, 22, 32, 42, 52, 62, 72, 82]"
  "map (drawn_t source0) [0..<nat 8] = [13, 23, 33, 43, 53, 63, 73, 83]"
proof -
  have idx: "[0..<nat 8] = [0, 1, 2, 3, 4, 5, 6, 7]"
    by (simp add: eval_nat_numeral)
  show "drawn_m source0 = 7"
    by (simp add: drawn_m_def source0_def)
  show "map (drawn_s source0) [0..<nat 8] = [12, 22, 32, 42, 52, 62, 72, 82]"
    unfolding idx by (simp add: drawn_s_def source0_def)
  show "map (drawn_t source0) [0..<nat 8] = [13, 23, 33, 43, 53, 63, 73, 83]"
    unfolding idx by (simp add: drawn_t_def source0_def)
qed

theorem Prove_Verify_complete_witness:
  "\<exists>p pr. Setup ideal keys0 2 8 = Inr p \<and> Prove ideal source0 200 5 p = Inr pr
     \<and> Verify ideal pr p (pubk keys0) = Inr True"
  using Prove_Verify_complete [of ideal keys0 2 8 200 source0 5] ideal_laws ideal_signs_digits
  by (simp add: source0_length)

lemma Verify_proof0: "Verify ideal proof0 (params0 2 1) 1 = Inr True"
  by (simp add: Verify_def Verify_body1_def Verify_body2_def for_loop.simps proof0_def
        params0_def ideal_fields Let_def Mod_def Multiply_def big_Mod_def E_def G1_def G2_def)

lemma Verify_proof1: "Verify ideal proof1 (params0 2 1) 1 = Inr False"
proof -
  have "Zq_Marshal 0 \<noteq> Zq_Marshal 1"
    using Zq_Marshal_inj [of 0 1] by auto
  then show ?thesis
    by (simp add: Verify_def Verify_body1_def Verify_body2_def for_loop.simps proof0_def
          proof1_def params0_def ideal_fields Let_def Mod_def Multiply_def big_Mod_def E_def
          G1_def G2_def)
qed

theorem Verify_accepts_iff_witness:
  "((Verify ideal proof0 (params0 2 1) 1 = Inr True \<longleftrightarrow>
       consistency_check ideal proof0 (params0 2 1)
       \<and> (\<forall>i \<in> {0..<nat (l (params0 2 1))}. digit_check ideal proof0 1 i))
    \<and> Verify ideal proof0 (params0 2 1) 1 = Inr True)
   \<and> ((Verify ideal proof1 (params0 2 1) 1 = Inr False \<longleftrightarrow>
       \<not> (consistency_check ideal proof1 (params0 2 1)
          \<and> (\<forall>i \<in> {0..<nat (l (params0 2 1))}. digit_check ideal proof1 1 i)))
    \<and> Verify ideal proof1 (params0 2 1) 1 = Inr False)"
  using Verify_accepts_iff [of ideal proof0 "params0 2 1" 1]
    Verify_accepts_iff [of ideal proof1 "params0 2 1" 1] ideal_laws
    Verify_proof0 Verify_proof1
  by (simp add: proof_shape_def proof0_def proof1_def params0_fields)

theorem tampered_zr_rejected_witness:
  "\<exists>p pr. Setup ideal keys0 2 8 = Inr p \<and> Prove ideal source0 200 5 p = Inr pr
     \<and> Verify ideal pr p (pubk keys0) = Inr True
     \<and> Verify ideal (pr\<lparr>zr := (zr pr + 1) mod Order ideal\<rparr>) p (pubk keys0) = Inr False"
  using tampered_zr_rejected [of ideal keys0 2 8 200 source0 5] ideal_laws ideal_signs_digits
  by (simp add: source0_length ideal_fields h_scalar_def bn_order_def)

theorem Prove_keeps_randomness_witness:
  "\<exists>pr. Prove ideal source0 200 5 (params0 2 8) = Inr pr
     \<and> m pr = drawn_m source0
     \<and> s pr = map (drawn_s source0) [0..<nat (l (params0 2 8))]
     \<and> t pr = map (drawn_t source0) [0..<nat (l (params0 2 8))]"
proof -
  obtain pr where pr: "Prove ideal source0 200 5 (params0 2 8) = Inr pr"
    using Prove_source0 [of 8 200 5] by auto
  from Prove_keeps_randomness [OF pr] pr show ?thesis by blast
qed

text \<open>
  C1, at the failing input. For the secret 200 with the parameters of \<open>Setup(2, 8)\<close>,
  Prove returns a proof whose field \<open>m\<close> is the blinding scalar 7 that it drew, and
  whose fields \<open>s\<close> and \<open>t\<close> are the scalars \<open>s_i\<close> and \<open>t_i\<close> that it drew in each
  round: witness data does appear in the proof.
\<close>

theorem Prove_leaks_randomness:
  "\<not> isl (Prove ideal source0 200 5 (params0 2 8))
   \<and> drawn_m source0 = 7
   \<and> m (projr (Prove ideal source0 200 5 (params0 2 8))) = 7
   \<and> s (projr (Prove ideal source0 200 5 (params0 2 8))) = [12, 22, 32, 42, 52, 62, 72, 82]
   \<and> t (projr (Prove ideal source0 200 5 (params0 2 8))) = [13, 23, 33, 43, 53, 63, 73, 83]"
proof -
  obtain pr where pr: "Prove ideal source0 200 5 (params0 2 8) = Inr pr"
    using Prove_source0 [of 8 200 5] by auto
  from Prove_fields(1-3) [OF pr] show ?thesis
    using drawn_source0 by (simp add: pr params0_fields)
qed

theorem challenge_is_Hash_reduced_witness:
  "\<exists>pr. Prove ideal source0 200 5 (params0 2 8) = Inr pr
     \<and> c pr = Hash ideal (a pr) (D pr) mod Order ideal \<and> 0 \<le> c pr \<and> c pr < Order ideal
     \<and> (\<exists>dg. length dg = 32 \<and> Hash ideal (a pr) (D pr) = FromByteArray ideal dg)"
proof -
  obtain pr where pr: "Prove ideal source0 200 5 (params0 2 8) = Inr pr"
    using Prove_source0 [of 8 200 5] by auto
  have "0 < Order ideal" by (simp add: ideal_fields bn_order_def)
  from challenge_is_Hash_reduced [OF pr this] pr show ?thesis by blast
qed

theorem Hash_deterministic_witness:
  "map (GT_String ideal) [3, 5] = map (GT_String ideal) [3, 5]
   \<and> G2_String ideal 7 = G2_String ideal 7
   \<and> Hash ideal [3, 5] 7 = Hash ideal [3, 5] 7"
  using Hash_deterministic [of ideal "[3, 5]" "[3, 5]" 7 7] by simp

theorem Setup_never_aborts_witness:
  "(\<exists>p. Setup ideal keys0 0 0 = Inr p \<and> u p = 0 \<and> l p = 0 \<and> signatures p = (\<lambda>k. None)
        \<and> \<not> isl (Prove ideal source0 200 5 p))
   \<and> (\<exists>p. Setup ideal keys0 2 (- 1) = Inr p
        \<and> Prove ideal source0 200 5 p = Inl MakesliceLenOutOfRange)
   \<and> (\<exists>p. Setup ideal keys0 0 8 = Inr p
        \<and> Prove ideal source0 200 5 p = Inl DivisionByZero)
   \<and> (\<exists>p. Setup ideal keys0 (- 2) 8 = Inr p \<and> signatures p = (\<lambda>k. None)
        \<and> Prove ideal source0 200 5 p = Inl NilDereference)"
proof -
  have "source0 \<noteq> []" by (simp add: source0_def)
  then show ?thesis
    using Setup_never_aborts [of 0 0 ideal keys0 source0 200 5]
      Setup_never_aborts [of 2 "- 1" ideal keys0 source0 200 5]
      Setup_never_aborts [of 0 8 ideal keys0 source0 200 5]
      Setup_never_aborts [of "- 2" 8 ideal keys0 source0 200 5]
    by simp blast
qed

text \<open>
  C9, counterexample. \<open>Setup(0, 0)\<close> returns parameters; it does not abort.
\<close>

theorem Setup_zero_returns: "\<not> isl (Setup ideal keys0 0 0)"
  by (simp add: Setup_eq)

text \<open>
  C2, at the failing input. With the parameters of \<open>Setup(2, 8)\<close>, whose range is
  \<open>[0, 256)\<close>, Prove on the secret 300 decomposes 300 into the digits of
  \<open>300 mod 256 = 44\<close>, finds a signature for each of them and returns a proof.
\<close>

theorem Prove_300_returns:
  "Setup ideal keys0 2 8 = Inr (params0 2 8)
   \<and> Decompose 300 2 8 = Inr [0, 0, 1, 1, 0, 1, 0, 0]
   \<and> \<not> isl (Prove ideal source0 300 5 (params0 2 8))"
proof -
  have "Decompose 300 2 8 = Inr [0, 0, 1, 1, 0, 1, 0, 0]"
    by (simp add: Decompose_digits eval_nat_numeral big_Mod_def big_Div_def)
  moreover have "\<not> isl (Prove ideal source0 300 5 (params0 2 8))"
    by (rule Prove_params0) (simp_all add: source0_length)
  ultimately show ?thesis
    by (simp add: Setup_params0)
qed

end
